theory Spec2Isabelle
  imports Main
begin

section \<open>Regular expressions, as far as the highlighter's rules use them\<close>

text \<open>
  The highlighter of \<^verbatim>\<open>main.py\<close> is a list of regular expressions handed to
  \<^verbatim>\<open>rich.highlighter.RegexHighlighter\<close>, which runs Python's \<^verbatim>\<open>re.finditer\<close> over
  the text for each of them. The rules are kept as data (a syntax tree per rule), and
  the matcher below gives the tree the meaning Python's backtracking matcher gives the
  pattern: every way a pattern can match from a position, in the order in which
  backtracking tries them, so that the head of the list is the match \<^verbatim>\<open>re\<close> reports.

  A text is a list of characters, one \<^typ>\<open>char\<close> per code point (0 to 255). The
  classes \<^verbatim>\<open>\w\<close>, \<^verbatim>\<open>\s\<close>, \<^verbatim>\<open>\d\<close> are the ones of a Python \<^verbatim>\<open>str\<close> pattern on that
  range.
\<close>

abbreviation SQ :: char where "SQ \<equiv> CHR 0x27"
abbreviation DQ :: char where "DQ \<equiv> CHR 0x22"
abbreviation BSL :: char where "BSL \<equiv> CHR 0x5C"

definition code :: "char \<Rightarrow> nat" where
  "code c = of_char c"

definition between :: "nat \<Rightarrow> nat \<Rightarrow> char \<Rightarrow> bool" where
  "between lo hi c = (lo \<le> code c \<and> code c \<le> hi)"

text \<open>\<^verbatim>\<open>\d\<close>: the decimal digits.\<close>

definition is_digit :: "char \<Rightarrow> bool" where
  "is_digit c = between 48 57 c"

text \<open>\<^verbatim>\<open>\w\<close>: alphanumeric or underscore.\<close>

definition is_word :: "char \<Rightarrow> bool" where
  "is_word c =
     (between 48 57 c \<or> between 65 90 c \<or> code c = 95 \<or> between 97 122 c \<or>
      code c = 170 \<or> between 178 179 c \<or> code c = 181 \<or> between 185 186 c \<or>
      between 188 190 c \<or> between 192 214 c \<or> between 216 246 c \<or> between 248 255 c)"

text \<open>\<^verbatim>\<open>\s\<close>: whitespace.\<close>

definition is_space :: "char \<Rightarrow> bool" where
  "is_space c = (between 9 13 c \<or> between 28 32 c \<or> code c = 133 \<or> code c = 160)"

text \<open>An item of a bracketed class: a character, a range \<^verbatim>\<open>a-z\<close>, or a class escape.\<close>

datatype citem = Ch char | Rng char char | ClsW | ClsS | ClsD

fun in_citem :: "citem \<Rightarrow> char \<Rightarrow> bool" where
  "in_citem (Ch a) c = (c = a)"
| "in_citem (Rng a b) c = between (code a) (code b) c"
| "in_citem ClsW c = is_word c"
| "in_citem ClsS c = is_space c"
| "in_citem ClsD c = is_digit c"

text \<open>
  What matches one character: \<^verbatim>\<open>.\<close> (anything but a newline), a class \<^verbatim>\<open>[...]\<close>, or a
  negated class \<^verbatim>\<open>[^...]\<close>.
\<close>

datatype cset = Dot | Pos "citem list" | Neg "citem list"

fun in_cset :: "cset \<Rightarrow> char \<Rightarrow> bool" where
  "in_cset Dot c = (code c \<noteq> 10)"
| "in_cset (Pos its) c = list_ex (\<lambda>it. in_citem it c) its"
| "in_cset (Neg its) c = (\<not> list_ex (\<lambda>it. in_citem it c) its)"

text \<open>
  The patterns. \<open>Rep greedy n cs\<close> is a repeated character set with at least \<open>n\<close>
  repetitions: \<^verbatim>\<open>X*\<close> is \<open>Rep True 0 X\<close>, \<^verbatim>\<open>X+\<close> is \<open>Rep True 1 X\<close>, \<^verbatim>\<open>X*?\<close> is
  \<open>Rep False 0 X\<close>, \<^verbatim>\<open>X+?\<close> is \<open>Rep False 1 X\<close> (the rules repeat nothing but single
  character sets). \<open>Opt\<close> is \<^verbatim>\<open>?\<close>, \<open>Named\<close> is \<^verbatim>\<open>(?P<name>...)\<close>, \<open>Ahead\<close> is \<^verbatim>\<open>(?=...)\<close>,
  \<open>NotBehind\<close> is \<^verbatim>\<open>(?<!X)\<close> for one character set, \<open>Bol\<close> is \<^verbatim>\<open>^\<close> (no MULTILINE
  flag: the start of the text) and \<open>WordB\<close> is \<^verbatim>\<open>\b\<close>. A group without a name only
  brackets its body and is not written.
\<close>

datatype re =
    Eps
  | Lit string
  | One cset
  | Rep bool nat cset
  | Opt re
  | Seq re re
  | Alt re re
  | Named string re
  | Ahead re
  | NotBehind cset
  | Bol
  | WordB

definition cat :: "re list \<Rightarrow> re" where
  "cat rs = foldr Seq rs Eps"

definition alts :: "re \<Rightarrow> re list \<Rightarrow> re" where
  "alts r rs = foldl Alt r rs"

text \<open>
  A matcher state: the text before the position (reversed, the nearest character first),
  the text from the position on, and the groups captured so far as (name, start, end),
  the latest first.
\<close>

type_synonym caps = "(string \<times> nat \<times> nat) list"
type_synonym mstate = "string \<times> string \<times> caps"

definition word_at :: "string \<Rightarrow> bool" where
  "word_at pre = (case pre of [] \<Rightarrow> False | p # _ \<Rightarrow> is_word p)"

fun m :: "re \<Rightarrow> mstate \<Rightarrow> mstate list" where
  "m Eps st = [st]"
| "m (Lit l) (pre, rest, c) =
     (if take (length l) rest = l then [(rev l @ pre, drop (length l) rest, c)] else [])"
| "m (One cs) (pre, rest, c) =
     (case rest of [] \<Rightarrow> [] | x # xs \<Rightarrow> if in_cset cs x then [(x # pre, xs, c)] else [])"
| "m (Rep greedy n cs) (pre, rest, c) =
     (let k = length (takeWhile (in_cset cs) rest);
          js = (if greedy then rev [n..<Suc k] else [n..<Suc k])
      in map (\<lambda>j. (rev (take j rest) @ pre, drop j rest, c)) js)"
| "m (Opt r) st = m r st @ [st]"
| "m (Seq a b) st = concat (map (m b) (m a st))"
| "m (Alt a b) st = m a st @ m b st"
| "m (Named n r) (pre, rest, c) =
     map (\<lambda>(pre', rest', c'). (pre', rest', (n, length pre, length pre') # c'))
       (m r (pre, rest, c))"
| "m (Ahead r) st = (if m r st = [] then [] else [st])"
| "m (NotBehind cs) (pre, rest, c) =
     (case pre of [] \<Rightarrow> [(pre, rest, c)]
      | p # _ \<Rightarrow> if in_cset cs p then [] else [(pre, rest, c)])"
| "m Bol (pre, rest, c) = (if pre = [] then [(pre, rest, c)] else [])"
| "m WordB (pre, rest, c) =
     (if word_at pre = word_at rest then [] else [(pre, rest, c)])"

text \<open>
  The match \<^verbatim>\<open>re\<close> reports from a position: the first in backtracking order. After an
  empty match the scanner searches again from the same position and refuses another
  empty match there (\<open>must_advance\<close>).
\<close>

definition first_match :: "re \<Rightarrow> bool \<Rightarrow> string \<Rightarrow> string \<Rightarrow> mstate option" where
  "first_match r must_advance pre rest =
     find (\<lambda>(pre', rest', c). if must_advance then length pre < length pre' else True)
       (m r (pre, rest, []))"

text \<open>A match consumes text and nothing else: needed for the scanner to terminate.\<close>

lemma m_suffix:
  "(pre', rest', c') \<in> set (m r (pre, rest, c)) \<Longrightarrow>
     \<exists>k. rest = k @ rest' \<and> pre' = rev k @ pre"
proof (induction r arbitrary: pre rest c pre' rest' c')
  case (Lit l)
  then show ?case
    by (auto split: if_splits intro!: exI[of _ l]) (metis append_take_drop_id)
next
  case (One cs)
  then show ?case by (auto split: list.splits if_splits)
next
  case (Rep g n cs)
  then show ?case
    by (auto simp: Let_def split: if_splits)
next
  case (Seq a b)
  from Seq.prems obtain p1 r1 c1 where
    1: "(p1, r1, c1) \<in> set (m a (pre, rest, c))" and
    2: "(pre', rest', c') \<in> set (m b (p1, r1, c1))"
    by auto
  from Seq.IH(1)[OF 1] Seq.IH(2)[OF 2] show ?case by auto
next
  case (Named n r)
  then show ?case by auto
next
  case (NotBehind cs)
  then show ?case by (auto split: list.splits if_splits)
qed (auto split: if_splits)

lemma first_match_suffix:
  assumes "first_match r adv pre rest = Some (pre', rest', c')"
  shows "length pre' + length rest' = length pre + length rest"
    and "length pre \<le> length pre'"
    and "adv \<Longrightarrow> length pre < length pre'"
proof -
  from assms obtain i where "i < length (m r (pre, rest, []))"
    "m r (pre, rest, []) ! i = (pre', rest', c')"
    and ok: "if adv then length pre < length pre' else True"
    by (auto simp: first_match_def find_Some_iff)
  then have mem: "(pre', rest', c') \<in> set (m r (pre, rest, []))"
    by (metis nth_mem)
  from m_suffix[OF mem] obtain k where k: "rest = k @ rest'" "pre' = rev k @ pre"
    by blast
  show "length pre' + length rest' = length pre + length rest" using k by simp
  show "length pre \<le> length pre'" using k by simp
  show "adv \<Longrightarrow> length pre < length pre'" using ok by simp
qed

lemma first_match_measure:
  assumes "first_match r adv pre rest = Some (pre', rest', c')"
  shows "2 * length rest' + (if length pre' = length pre then 0 else 1)
           < 2 * length rest + (if adv then 0 else 1)"
  using first_match_suffix[OF assms] by (cases adv) auto

text \<open>
  \<^verbatim>\<open>re.finditer\<close>: the matches of the pattern over the whole text, from left to right,
  each as (start, end, captured groups). A search that fails at a position moves one
  character on; a search after a match starts where the match ended.
\<close>

function finditer :: "re \<Rightarrow> bool \<Rightarrow> string \<Rightarrow> string \<Rightarrow> (nat \<times> nat \<times> caps) list" where
  "finditer r must_advance pre rest =
     (case first_match r must_advance pre rest of
        Some (pre', rest', c) \<Rightarrow>
          (length pre, length pre', c) # finditer r (length pre' = length pre) pre' rest'
      | None \<Rightarrow>
          (case rest of [] \<Rightarrow> [] | x # xs \<Rightarrow> finditer r False (x # pre) xs))"
  by pat_completeness auto
termination
proof (relation "measure (\<lambda>(r, adv, pre, rest). 2 * length rest + (if adv then 0 else 1))",
    goal_cases)
  case 1
  show ?case by simp
next
  case (2 r must_advance pre rest x xs)
  then show ?case by simp
next
  case (3 r must_advance pre rest x2 pre' y rest' c)
  then have fm: "first_match r must_advance pre rest = Some (pre', rest', c)" by simp
  from first_match_measure[OF fm] show ?case by (simp split: if_splits)
qed

text \<open>
  The equation of \<open>finditer\<close> is unfolded by hand where a proof needs it.
\<close>

declare finditer.simps [simp del]

text \<open>The names of a pattern's named groups, in the order of the pattern.\<close>

fun group_names :: "re \<Rightarrow> string list" where
  "group_names (Named n r) = n # group_names r"
| "group_names (Opt r) = group_names r"
| "group_names (Seq a b) = group_names a @ group_names b"
| "group_names (Alt a b) = group_names a @ group_names b"
| "group_names (Ahead r) = group_names r"
| "group_names r = []"

section \<open>Highlighting\<close>

text \<open>
  A span is (start, end, style name), as \<^verbatim>\<open>rich.text.Span\<close>. \<^verbatim>\<open>Text.highlight_regex\<close>
  appends, for every match and every named group of the pattern that took part in it
  and is not empty, a span over the group, styled \<^verbatim>\<open>style_prefix + name\<close>:
  \<^verbatim>\<open>
  for match in re_highlight.finditer(plain):
      ...
      for name in match.groupdict().keys():
          start, end = get_span(name)
          if start != -1 and end > start:
              append_span(_Span(start, end, f"{style_prefix}{name}"))
  \<close>
\<close>

type_synonym span = "nat \<times> nat \<times> string"

definition group_spans :: "string \<Rightarrow> string list \<Rightarrow> caps \<Rightarrow> span list" where
  "group_spans style_prefix names c =
     concat (map (\<lambda>name. case map_of c name of
                             None \<Rightarrow> []
                           | Some (gs, ge) \<Rightarrow> if gs < ge then [(gs, ge, style_prefix @ name)] else [])
                 names)"

definition highlight_regex :: "re \<Rightarrow> string \<Rightarrow> string \<Rightarrow> span list" where
  "highlight_regex re_highlight style_prefix plain =
     concat (map (\<lambda>(s, e, c). group_spans style_prefix (group_names re_highlight) c)
                 (finditer re_highlight False [] plain))"

section \<open>The highlighter of main.py\<close>

text \<open>
  \<^verbatim>\<open>DTypeRegexHighlighter.highlights\<close>, rule by rule in the order of the source; above
  each tree stands the pattern it transcribes.
\<close>

text \<open>\<^verbatim>\<open>(?P<CONSTANT>(\s[A-Z_]*(?=[\s,])))\<close>\<close>

definition rule_CONSTANT :: re where
  "rule_CONSTANT =
     Named ''CONSTANT''
       (cat [One (Pos [ClsS]),
             Rep True 0 (Pos [Rng CHR ''A'' CHR ''Z'', Ch CHR ''_'']),
             Ahead (One (Pos [ClsS, Ch CHR '','']))])"

text \<open>
  \<^verbatim>\<open>(?<![\\\w])(?P<STR>b?'''.*?(?<!\\)'''|b?'.*?(?<!\\)'|b?\"\"\".*?(?<!\\)\"\"\"|b?\".*?(?<!\\)\")\<close>
  (in the source's raw string \<^verbatim>\<open>\"\<close> is the pattern's escaped double quote)
\<close>

definition rule_STR :: re where
  "rule_STR =
     cat [NotBehind (Pos [Ch BSL, ClsW]),
          Named ''STR''
            (alts
               (cat [Opt (Lit ''b''), Lit [SQ, SQ, SQ], Rep False 0 Dot,
                     NotBehind (Pos [Ch BSL]), Lit [SQ, SQ, SQ]])
               [cat [Opt (Lit ''b''), Lit [SQ], Rep False 0 Dot,
                     NotBehind (Pos [Ch BSL]), Lit [SQ]],
                cat [Opt (Lit ''b''), Lit [DQ, DQ, DQ], Rep False 0 Dot,
                     NotBehind (Pos [Ch BSL]), Lit [DQ, DQ, DQ]],
                cat [Opt (Lit ''b''), Lit [DQ], Rep False 0 Dot,
                     NotBehind (Pos [Ch BSL]), Lit [DQ]]])]"

text \<open>\<^verbatim>\<open>(?P<NUMBER>(?<!\w)\-?[0-9]+\.?[0-9]*(e[-+]?\d+?)?\b|0x[0-9a-fA-F]*)\<close>\<close>

definition rule_NUMBER :: re where
  "rule_NUMBER =
     Named ''NUMBER''
       (Alt
          (cat [NotBehind (Pos [ClsW]), Opt (Lit ''-''),
                Rep True 1 (Pos [Rng CHR ''0'' CHR ''9'']), Opt (Lit ''.''),
                Rep True 0 (Pos [Rng CHR ''0'' CHR ''9'']),
                Opt (cat [Lit ''e'', Opt (One (Pos [Ch CHR ''-'', Ch CHR ''+''])),
                          Rep False 1 (Pos [ClsD])]),
                WordB])
          (cat [Lit ''0x'',
                Rep True 0 (Pos [Rng CHR ''0'' CHR ''9'', Rng CHR ''a'' CHR ''f'',
                                 Rng CHR ''A'' CHR ''F''])]))"

text \<open>\<^verbatim>\<open>(?P<TRUE>True)\<close>, \<^verbatim>\<open>(?P<FALSE>False)\<close>, \<^verbatim>\<open>(?P<NONE>None)\<close>\<close>

definition rule_TRUE :: re where
  "rule_TRUE = Named ''TRUE'' (Lit ''True'')"

definition rule_FALSE :: re where
  "rule_FALSE = Named ''FALSE'' (Lit ''False'')"

definition rule_NONE :: re where
  "rule_NONE = Named ''NONE'' (Lit ''None'')"

text \<open>\<^verbatim>\<open>(?P<ENUM>[A-z]*\.[A-Z_]*(?=:))\<close>\<close>

definition rule_ENUM :: re where
  "rule_ENUM =
     Named ''ENUM''
       (cat [Rep True 0 (Pos [Rng CHR ''A'' CHR ''z'']), Lit ''.'',
             Rep True 0 (Pos [Rng CHR ''A'' CHR ''Z'', Ch CHR ''_'']),
             Ahead (Lit '':'')])"

text \<open>\<^verbatim>\<open>(?P<DATACLASS_NAME>[A-z]*(?=\())\<close>\<close>

definition rule_DATACLASS_NAME :: re where
  "rule_DATACLASS_NAME =
     Named ''DATACLASS_NAME''
       (cat [Rep True 0 (Pos [Rng CHR ''A'' CHR ''z'']), Ahead (Lit ''('')])"

text \<open>\<^verbatim>\<open>(?P<DICT_KEY>'.*'): \<close> (the pattern ends with a colon and a space)\<close>

definition rule_DICT_KEY :: re where
  "rule_DICT_KEY =
     cat [Named ''DICT_KEY'' (cat [Lit [SQ], Rep True 0 Dot, Lit [SQ]]), Lit '': '']"

text \<open>\<^verbatim>\<open>(?P<PUNCTUATION>[^\w\s\d])\<close>\<close>

definition rule_PUNCTUATION :: re where
  "rule_PUNCTUATION = Named ''PUNCTUATION'' (One (Neg [ClsW, ClsS, ClsD]))"

text \<open>
  \<^verbatim>\<open>^\[(?P<HOUR>2[0-3]|[01][0-9])\:(?P<MINUTE>[0-5][0-9])\:(?P<SECOND>[0-5][0-9])\]\<close>
\<close>

definition rule_TIME :: re where
  "rule_TIME =
     cat [Bol, Lit ''['',
          Named ''HOUR''
            (Alt (cat [Lit ''2'', One (Pos [Rng CHR ''0'' CHR ''3''])])
                 (cat [One (Pos [Ch CHR ''0'', Ch CHR ''1'']),
                       One (Pos [Rng CHR ''0'' CHR ''9''])])),
          Lit '':'',
          Named ''MINUTE''
            (cat [One (Pos [Rng CHR ''0'' CHR ''5'']), One (Pos [Rng CHR ''0'' CHR ''9''])]),
          Lit '':'',
          Named ''SECOND''
            (cat [One (Pos [Rng CHR ''0'' CHR ''5'']), One (Pos [Rng CHR ''0'' CHR ''9''])]),
          Lit '']'']"

text \<open>\<^verbatim>\<open><function (?P<FUNCTION_NAME>[^\s]+) at (?P<HEX_ADDRESS>[a-zA-Z0-9]+)>\<close>\<close>

definition rule_FUNCTION :: re where
  "rule_FUNCTION =
     cat [Lit ''<function '', Named ''FUNCTION_NAME'' (Rep True 1 (Neg [ClsS])),
          Lit '' at '',
          Named ''HEX_ADDRESS''
            (Rep True 1 (Pos [Rng CHR ''a'' CHR ''z'', Rng CHR ''A'' CHR ''Z'',
                              Rng CHR ''0'' CHR ''9''])),
          Lit ''>'']"

text \<open>\<^verbatim>\<open><(?P<INSTANCE_CLS>[^\s]+) object at (?P<HEX_ADDRESS>[a-zA-Z0-9]+)>\<close>\<close>

definition rule_INSTANCE :: re where
  "rule_INSTANCE =
     cat [Lit ''<'', Named ''INSTANCE_CLS'' (Rep True 1 (Neg [ClsS])),
          Lit '' object at '',
          Named ''HEX_ADDRESS''
            (Rep True 1 (Pos [Rng CHR ''a'' CHR ''z'', Rng CHR ''A'' CHR ''Z'',
                              Rng CHR ''0'' CHR ''9''])),
          Lit ''>'']"

text \<open>\<^verbatim>\<open><class '(?P<CLASS>[\w\.]+)'>\<close>\<close>

definition rule_CLASS :: re where
  "rule_CLASS =
     cat [Lit (''<class '' @ [SQ]), Named ''CLASS'' (Rep True 1 (Pos [ClsW, Ch CHR ''.''])),
          Lit (SQ # ''>'')]"

text \<open>\<^verbatim>\<open><module '(?P<MODULE>[^\s]+)'\<close>\<close>

definition rule_MODULE :: re where
  "rule_MODULE =
     cat [Lit (''<module '' @ [SQ]), Named ''MODULE'' (Rep True 1 (Neg [ClsS])), Lit [SQ]]"

text \<open>\<^verbatim>\<open>from '(?P<MODULE_FROM>[^\s]+)'>\<close>\<close>

definition rule_MODULE_FROM :: re where
  "rule_MODULE_FROM =
     cat [Lit (''from '' @ [SQ]), Named ''MODULE_FROM'' (Rep True 1 (Neg [ClsS])),
          Lit (SQ # ''>'')]"

definition highlights :: "re list" where
  "highlights =
     [rule_CONSTANT, rule_STR, rule_NUMBER, rule_TRUE, rule_FALSE, rule_NONE, rule_ENUM,
      rule_DATACLASS_NAME, rule_DICT_KEY, rule_PUNCTUATION, rule_TIME, rule_FUNCTION,
      rule_INSTANCE, rule_CLASS, rule_MODULE, rule_MODULE_FROM]"

text \<open>
  The class body sets \<^verbatim>\<open>base_stype = "dtype."\<close>. \<^verbatim>\<open>RegexHighlighter.highlight\<close> reads
  \<^verbatim>\<open>self.base_style\<close>, which the class does not set and so inherits from
  \<^verbatim>\<open>RegexHighlighter\<close>, where it is the empty string.
\<close>

definition base_stype :: string where
  "base_stype = ''dtype.''"

definition base_style :: string where
  "base_style = ''''"

text \<open>
  \<^verbatim>\<open>RegexHighlighter.highlight\<close>: every rule in turn over the plain text of a fresh
  \<^verbatim>\<open>Text\<close>, each appending its spans.
  \<^verbatim>\<open>
  for re_highlight in self.highlights:
      highlight_regex(re_highlight, style_prefix=self.base_style)
  \<close>
\<close>

definition highlight :: "string \<Rightarrow> span list" where
  "highlight plain = concat (map (\<lambda>r. highlight_regex r base_style plain) highlights)"

text \<open>The spans of a text that carry a given style, in the order they were appended.\<close>

definition tagged :: "string \<Rightarrow> span list \<Rightarrow> (nat \<times> nat) list" where
  "tagged tag spans = map (\<lambda>(s, e, t). (s, e)) (filter (\<lambda>(s, e, t). t = tag) spans)"

section \<open>The timestamp formatter\<close>

text \<open>
  \<^verbatim>\<open>
  def format_timestamp(highlighter_, input_datetime):
      formatted = input_datetime.strftime("[%X]")
      formatted = Text(formatted)
      return highlighter_(formatted)
  \<close>
  A time of day is its hour, minute and second. \<^verbatim>\<open>%X\<close> is the locale's time format; the
  model takes the one of the C locale, \<^verbatim>\<open>%H:%M:%S\<close>, each field in two decimal digits.
  The console calls the formatter with the module's highlighter.
\<close>

record datetime =
  hour :: nat
  minute :: nat
  second :: nat

definition pad2 :: "nat \<Rightarrow> string" where
  "pad2 n = [char_of (48 + n div 10), char_of (48 + n mod 10)]"

definition strftime_X :: "datetime \<Rightarrow> string" where
  "strftime_X dt =
     ''['' @ pad2 (hour dt) @ '':'' @ pad2 (minute dt) @ '':'' @
     pad2 (second dt) @ '']''"

definition format_timestamp :: "(string \<Rightarrow> span list) \<Rightarrow> datetime \<Rightarrow> span list" where
  "format_timestamp highlighter_fn input_datetime = highlighter_fn (strftime_X input_datetime)"

section \<open>The theme of config.py\<close>

text \<open>\<^verbatim>\<open>DEFAULT_THEME\<close>: the \<^verbatim>\<open>styles\<close> dictionary, style name to style, as written.\<close>

definition DEFAULT_THEME :: "(string \<times> string) list" where
  "DEFAULT_THEME =
     [(''CONSTANT'', ''#ff9b54''),
      (''STR'', ''sea_green2 bold''),
      (''NUMBER'', ''sky_blue1 bold''),
      (''TRUE'', ''#C5D86D bold''),
      (''FALSE'', ''#D8829D bold''),
      (''DICT_KEY'', ''#94a3b8 bold''),
      (''PUNCTUATION'', ''grey39''),
      (''ENUM'', ''#cdb4db''),
      (''NONE'', ''#ffbd00 bold''),
      (''DATACLASS_NAME'', ''#c77dff''),
      (''HOUR'', ''dark_slate_gray1''),
      (''MINUTE'', ''dark_slate_gray1''),
      (''SECOND'', ''dark_slate_gray1''),
      (''FUNCTION_NAME'', ''green1 bold''),
      (''INSTANCE_CLS'', ''medium_spring_green''),
      (''CLASS'', ''gold3 bold''),
      (''MODULE'', ''orange3''),
      (''MODULE_FROM'', ''orange3''),
      (''HEX_ADDRESS'', ''dodger_blue1'')]"

text \<open>The style names the highlighter can put on a span: prefix and group name.\<close>

definition style_names :: "string list" where
  "style_names = map (\<lambda>name. base_style @ name) (concat (map group_names highlights))"

section \<open>Values and exceptions\<close>

text \<open>
  An exception the program's own callers raise is its type and its message; an exception
  that rich or the interpreter raises is kept by its type alone. A Python value is
  \<^verbatim>\<open>None\<close>, a \<^verbatim>\<open>bool\<close>, an \<^verbatim>\<open>int\<close>, a \<^verbatim>\<open>str\<close>, a \<^verbatim>\<open>rich.text.Text\<close> (by its plain text), or
  an instance of some other plain class: its attributes (name to value) and what \<^verbatim>\<open>str()\<close>
  of it gives, which is an exception when its \<^verbatim>\<open>__repr__\<close> raises.
\<close>

datatype exn = Exn string string | Raised string

datatype pyval =
    PNone
  | PBool bool
  | PInt int
  | PStr string
  | PText string
  | PObj "(string \<times> pyval) list" "exn + string"

text \<open>
  A message of \<^verbatim>\<open>show_status\<close> is a \<^verbatim>\<open>str\<close> or a \<^verbatim>\<open>Text\<close> (its annotation is
  \<^verbatim>\<open>str | Text\<close>).
\<close>

datatype msg = MStr string | MText string

fun msg_val :: "msg \<Rightarrow> pyval" where
  "msg_val (MStr s) = PStr s"
| "msg_val (MText s) = PText s"

text \<open>\<^verbatim>\<open>str(n)\<close> for an integer: its decimal digits, after a minus sign when it is negative.\<close>

function dec :: "nat \<Rightarrow> string" where
  "dec n = (if n < 10 then [char_of (48 + n)] else dec (n div 10) @ [char_of (48 + n mod 10)])"
  by pat_completeness auto
termination
  by (relation "measure id") auto

definition str_int :: "int \<Rightarrow> string" where
  "str_int i = (if i < 0 then CHR ''-'' # dec (nat (- i)) else dec (nat i))"

text \<open>\<^verbatim>\<open>str(v)\<close>: the text of a value, or the exception its \<^verbatim>\<open>__repr__\<close> raises.\<close>

fun py_str :: "pyval \<Rightarrow> exn + string" where
  "py_str PNone = Inr ''None''"
| "py_str (PBool b) = Inr (if b then ''True'' else ''False'')"
| "py_str (PInt i) = Inr (str_int i)"
| "py_str (PStr s) = Inr s"
| "py_str (PText s) = Inr s"
| "py_str (PObj attrs r) = r"

section \<open>The markup of rich\<close>

text \<open>
  \<open>print\<close> hands every \<^verbatim>\<open>str\<close> to \<^verbatim>\<open>rich.markup.escape\<close>, and the console turns every
  \<^verbatim>\<open>str\<close> it prints into a \<^verbatim>\<open>Text\<close> with \<^verbatim>\<open>rich.markup.render\<close>. Both are transcribed here
  from \<^verbatim>\<open>rich/markup.py\<close> of rich 13.7.1, over the matcher above. The numbered groups of
  their patterns are named by their numbers.
\<close>

text \<open>\<^verbatim>\<open>match.group(n)\<close>: the text of a group (empty when the group took no part).\<close>

definition match_group :: "string \<Rightarrow> caps \<Rightarrow> string \<Rightarrow> string" where
  "match_group subject c name =
     (case map_of c name of None \<Rightarrow> [] | Some (gs, ge) \<Rightarrow> take (ge - gs) (drop gs subject))"

text \<open>
  \<^verbatim>\<open>pattern.sub(repl, subject)\<close> for a function \<open>repl\<close>: the subject with every match of
  \<^verbatim>\<open>finditer\<close> replaced by what \<open>repl\<close> makes of its groups.
\<close>

fun sub_from :: "(caps \<Rightarrow> string) \<Rightarrow> string \<Rightarrow> nat \<Rightarrow> (nat \<times> nat \<times> caps) list \<Rightarrow> string" where
  "sub_from repl subject pos [] = drop pos subject"
| "sub_from repl subject pos ((s, e, c) # ms) =
     take (s - pos) (drop pos subject) @ repl c @ sub_from repl subject e ms"

definition re_sub :: "re \<Rightarrow> (caps \<Rightarrow> string) \<Rightarrow> string \<Rightarrow> string" where
  "re_sub r repl subject = sub_from repl subject 0 (finditer r False [] subject)"

text \<open>The first character of a tag: \<^verbatim>\<open>[a-z#/@]\<close>.\<close>

definition tag_start :: cset where
  "tag_start = Pos [Rng CHR ''a'' CHR ''z'', Ch CHR ''#'', Ch CHR ''/'', Ch CHR ''@'']"

text \<open>\<^verbatim>\<open>(\\*)(\[[a-z#/@][^[]*?])\<close>, the pattern of \<^verbatim>\<open>escape\<close>\<close>

definition escape_re :: re where
  "escape_re =
     Seq (Named ''1'' (Rep True 0 (Pos [Ch BSL])))
         (Named ''2'' (cat [Lit ''['', One tag_start, Rep False 0 (Neg [Ch CHR ''['']),
                            Lit '']'']))"

text \<open>
  \<^verbatim>\<open>
  def escape_backslashes(match):
      backslashes, text = match.groups()
      return f"{backslashes}{backslashes}\\{text}"

  markup = _escape(escape_backslashes, markup)
  if markup.endswith("\\") and not markup.endswith("\\\\"):
      return markup + "\\"
  return markup
  \<close>
\<close>

definition escape_backslashes :: "string \<Rightarrow> caps \<Rightarrow> string" where
  "escape_backslashes subject c =
     (let backslashes = match_group subject c ''1''; tx = match_group subject c ''2''
      in backslashes @ backslashes @ [BSL] @ tx)"

definition endswith :: "string \<Rightarrow> string \<Rightarrow> bool" where
  "endswith s suffix = (length suffix \<le> length s \<and> drop (length s - length suffix) s = suffix)"

definition escape :: "string \<Rightarrow> string" where
  "escape markup =
     (let escaped = re_sub escape_re (escape_backslashes markup) markup
      in if endswith escaped [BSL] \<and> \<not> endswith escaped [BSL, BSL] then escaped @ [BSL]
         else escaped)"

text \<open>\<^verbatim>\<open>((\\*)\[([a-z#/@][^[]*?)])\<close>, the pattern \<^verbatim>\<open>RE_TAGS\<close>\<close>

definition RE_TAGS :: re where
  "RE_TAGS =
     Named ''1''
       (cat [Named ''2'' (Rep True 0 (Pos [Ch BSL])), Lit ''['',
             Named ''3'' (cat [One tag_start, Rep False 0 (Neg [Ch CHR ''[''])]),
             Lit '']''])"

text \<open>A tag of the markup: its name and the parameters after the name, if any.\<close>

datatype tag = Tag string "string option"

fun tag_name :: "tag \<Rightarrow> string" where
  "tag_name (Tag n p) = n"

fun tag_parameters :: "tag \<Rightarrow> string option" where
  "tag_parameters (Tag n p) = p"

text \<open>\<^verbatim>\<open>str(tag)\<close>: the name, or the name, a space and the parameters.\<close>

fun tag_str :: "tag \<Rightarrow> string" where
  "tag_str (Tag n None) = n"
| "tag_str (Tag n (Some p)) = n @ '' '' @ p"

text \<open>\<^verbatim>\<open>s.partition("=")\<close>: the text before the first \<^verbatim>\<open>=\<close>, whether there is one, the text after it.\<close>

definition partition_eq :: "string \<Rightarrow> string \<times> bool \<times> string" where
  "partition_eq s =
     (takeWhile (\<lambda>ch. ch \<noteq> CHR ''='') s, CHR ''='' \<in> set s,
      drop 1 (dropWhile (\<lambda>ch. ch \<noteq> CHR ''='') s))"

text \<open>
  \<^verbatim>\<open>_parse\<close> yields (position, text, tag) triples, of which either the text or the tag is
  \<^verbatim>\<open>None\<close>:
  \<^verbatim>\<open>
  position = 0
  for match in RE_TAGS.finditer(markup):
      full_text, escapes, tag_text = match.groups()
      start, end = match.span()
      if start > position:
          yield start, markup[position:start], None
      if escapes:
          backslashes, escaped = divmod(len(escapes), 2)
          if backslashes:
              yield start, "\\" * backslashes, None
              start += backslashes * 2
          if escaped:
              yield start, full_text[len(escapes) :], None
              position = end
              continue
      text, equals, parameters = tag_text.partition("=")
      yield start, None, Tag(text, parameters if equals else None)
      position = end
  if position < len(markup):
      yield position, markup[position:], None
  \<close>
\<close>

type_synonym parsed = "nat \<times> string option \<times> tag option"

fun parse_from :: "string \<Rightarrow> nat \<Rightarrow> (nat \<times> nat \<times> caps) list \<Rightarrow> parsed list" where
  "parse_from markup position [] =
     (if position < length markup then [(position, Some (drop position markup), None)] else [])"
| "parse_from markup position ((start, stop, c) # ms) =
     (let full_text = match_group markup c ''1'';
          escapes = match_group markup c ''2'';
          tag_text = match_group markup c ''3'';
          before = (if position < start
                    then [(start, Some (take (start - position) (drop position markup)), None)]
                    else []);
          backslashes = length escapes div 2;
          escaped = length escapes mod 2;
          literal = (if backslashes \<noteq> 0 then [(start, Some (replicate backslashes BSL), None)]
                     else []);
          start1 = start + backslashes * 2
      in before @ literal @
         (if escaped \<noteq> 0
          then (start1, Some (drop (length escapes) full_text), None) # parse_from markup stop ms
          else (case partition_eq tag_text of
                  (tx, equals, params) \<Rightarrow>
                    (start1, None, Some (Tag tx (if equals then Some params else None))) #
                    parse_from markup stop ms)))"

definition parse :: "string \<Rightarrow> parsed list" where
  "parse markup = parse_from markup 0 (finditer RE_TAGS False [] markup)"

text \<open>
  What rich does with a text apart from its markup, and what decides whether one of its
  calls raises, is not in \<^verbatim>\<open>markup.py\<close> and is taken as given:
  \<^item> \<open>emoji_replace\<close>: \<^verbatim>\<open>_emoji_replace\<close>, which puts emoji in the place of their codes;
  \<^item> \<open>normalize\<close>: \<^verbatim>\<open>Style.normalize\<close>, the canonical form of a style definition;
  \<^item> \<open>meta_error\<close>: the \<^verbatim>\<open>MarkupError\<close> that evaluating the parameters of an \<^verbatim>\<open>@\<close> tag
    raises, if it raises;
  \<^item> \<open>style_error\<close>: the \<^verbatim>\<open>MissingStyle\<close> that \<^verbatim>\<open>Console.get_style\<close> raises for a style, if
    it raises;
  \<^item> \<open>option_error\<close>: what the constructors of the status indicator raise for the values
    of its options, if they raise;
  \<^item> \<open>refresh_error\<close>: what rendering the status indicator raises, if it raises, when the
    live display refreshes it for the last time.
\<close>

record rich =
  emoji_replace :: "string \<Rightarrow> string"
  normalize :: "string \<Rightarrow> string"
  meta_error :: "string \<Rightarrow> exn option"
  style_error :: "string \<Rightarrow> exn option"
  option_error :: "(string \<times> pyval) list \<Rightarrow> exn option"
  refresh_error :: "msg \<Rightarrow> string \<Rightarrow> (string \<times> pyval) list \<Rightarrow> exn option"

text \<open>
  The style of a span: a style definition, or the style of an \<^verbatim>\<open>@\<close> tag, which holds the
  tag's name and parameters as meta data.
\<close>

datatype tstyle = StyleName string | MetaStyle string "string option"

type_synonym tspan = "nat \<times> nat \<times> tstyle"

text \<open>A \<^verbatim>\<open>Text\<close>: its plain text and its spans.\<close>

record Text =
  plain :: string
  spans :: "tspan list"

text \<open>
  \<^verbatim>\<open>strip_control_codes\<close>, which \<^verbatim>\<open>Text\<close> puts every \<^verbatim>\<open>str\<close> through: bell, backspace,
  vertical tab, form feed and carriage return are dropped.
\<close>

definition strip_control_codes :: "string \<Rightarrow> string" where
  "strip_control_codes s = filter (\<lambda>ch. code ch \<notin> {7, 8, 11, 12, 13}) s"

text \<open>\<^verbatim>\<open>plain_text.replace("\\[", "[")\<close>\<close>

fun replace_open :: "string \<Rightarrow> string" where
  "replace_open (a # b # s) =
     (if a = BSL \<and> b = CHR ''['' then CHR ''['' # replace_open s
      else a # replace_open (b # s))"
| "replace_open s = s"

text \<open>\<^verbatim>\<open>s.strip()\<close>\<close>

definition strip :: "string \<Rightarrow> string" where
  "strip s = rev (dropWhile is_space (rev (dropWhile is_space s)))"

text \<open>
  What \<^verbatim>\<open>render\<close> appends to the text for a piece of plain text:
  \<^verbatim>\<open>
  plain_text = plain_text.replace("\\[", "[")
  append(emoji_replace(plain_text) if emoji else plain_text)
  \<close>
  where \<^verbatim>\<open>Text.append\<close> strips the control codes.
\<close>

definition append_plain :: "rich \<Rightarrow> string \<Rightarrow> string" where
  "append_plain R plain_text = strip_control_codes (emoji_replace R (replace_open plain_text))"

text \<open>
  \<^verbatim>\<open>pop_style\<close>: the innermost open tag of that name is taken off the stack (the stack is
  kept with the innermost tag first).
\<close>

fun pop_style :: "string \<Rightarrow> (nat \<times> tag) list \<Rightarrow> ((nat \<times> tag) \<times> (nat \<times> tag) list) option" where
  "pop_style style_name [] = None"
| "pop_style style_name ((start, tg) # stack) =
     (if tag_name tg = style_name then Some ((start, tg), stack)
      else case pop_style style_name stack of
             None \<Rightarrow> None
           | Some (found, stack') \<Rightarrow> Some (found, (start, tg) # stack'))"

text \<open>
  The span a closing tag appends for the open tag it closes, over the text since the open
  tag; a closed \<^verbatim>\<open>@\<close> tag with parameters has them evaluated first.
\<close>

definition close_span :: "rich \<Rightarrow> nat \<times> tag \<Rightarrow> nat \<Rightarrow> exn + tspan" where
  "close_span R opened text_length =
     (case opened of
        (start, open_tag) \<Rightarrow>
          if take 1 (tag_name open_tag) = ''@''
          then (case tag_parameters open_tag of
                  None \<Rightarrow> Inr (start, text_length, MetaStyle (tag_name open_tag) None)
                | Some p \<Rightarrow>
                    if p = [] then Inr (start, text_length, MetaStyle (tag_name open_tag) (Some p))
                    else (case meta_error R p of
                            Some e \<Rightarrow> Inl e
                          | None \<Rightarrow>
                              Inr (start, text_length, MetaStyle (tag_name open_tag) (Some p))))
          else Inr (start, text_length, StyleName (tag_str open_tag)))"

text \<open>
  The loop of \<^verbatim>\<open>render\<close> over what \<^verbatim>\<open>_parse\<close> yields, on the text so far, the stack of open
  tags and the spans so far:
  \<^verbatim>\<open>
  for position, plain_text, tag in _parse(markup):
      if plain_text is not None:
          plain_text = plain_text.replace("\\[", "[")
          append(emoji_replace(plain_text) if emoji else plain_text)
      elif tag is not None:
          if tag.name.startswith("/"):  # Closing tag
              style_name = tag.name[1:].strip()
              if style_name:  # explicit close
                  style_name = normalize(style_name)
                  try:
                      start, open_tag = pop_style(style_name)
                  except KeyError:
                      raise MarkupError(...) from None
              else:  # implicit close
                  try:
                      start, open_tag = pop()
                  except IndexError:
                      raise MarkupError(...) from None
              if open_tag.name.startswith("@"):
                  ...
                  append_span(_Span(start, len(text), Style(meta={open_tag.name: meta_params})))
              else:
                  append_span(_Span(start, len(text), str(open_tag)))
          else:  # Opening tag
              normalized_tag = _Tag(normalize(tag.name), tag.parameters)
              style_stack.append((len(text), normalized_tag))
  \<close>
\<close>

fun render_loop ::
  "rich \<Rightarrow> parsed list \<Rightarrow> string \<Rightarrow> (nat \<times> tag) list \<Rightarrow> tspan list \<Rightarrow>
   exn + string \<times> (nat \<times> tag) list \<times> tspan list" where
  "render_loop R [] tx style_stack sp = Inr (tx, style_stack, sp)"
| "render_loop R ((position, Some plain_text, tg) # rest) tx style_stack sp =
     render_loop R rest (tx @ append_plain R plain_text) style_stack sp"
| "render_loop R ((position, None, None) # rest) tx style_stack sp =
     render_loop R rest tx style_stack sp"
| "render_loop R ((position, None, Some tg) # rest) tx style_stack sp =
     (if take 1 (tag_name tg) = ''/''
      then (let style_name = strip (drop 1 (tag_name tg));
                popped = (if style_name \<noteq> [] then pop_style (normalize R style_name) style_stack
                          else case style_stack of [] \<Rightarrow> None | innermost # others \<Rightarrow> Some (innermost, others))
            in case popped of
                 None \<Rightarrow> Inl (Raised ''MarkupError'')
               | Some (opened, stack') \<Rightarrow>
                   (case close_span R opened (length tx) of
                      Inl e \<Rightarrow> Inl e
                    | Inr s \<Rightarrow> render_loop R rest tx stack' (sp @ [s])))
      else render_loop R rest tx
             ((length tx, Tag (normalize R (tag_name tg)) (tag_parameters tg)) # style_stack) sp)"

text \<open>
  \<^verbatim>\<open>
  if "[" not in markup:
      return Text(emoji_replace(markup, default_variant=emoji_variant) if emoji else markup, style=style)
  ...
  text_length = len(text)
  while style_stack:
      start, tag = style_stack.pop()
      style = str(tag)
      if style:
          append_span(_Span(start, text_length, style))
  text.spans = sorted(spans[::-1], key=attrgetter("start"))
  return text
  \<close>
  The console renders with emoji on and with no emoji variant.
\<close>

definition unclosed_spans :: "(nat \<times> tag) list \<Rightarrow> nat \<Rightarrow> tspan list" where
  "unclosed_spans style_stack text_length =
     concat (map (\<lambda>(start, tg). if tag_str tg \<noteq> [] then [(start, text_length, StyleName (tag_str tg))]
                                else [])
                 style_stack)"

definition render :: "rich \<Rightarrow> string \<Rightarrow> exn + Text" where
  "render R markup =
     (if CHR ''['' \<notin> set markup
      then Inr \<lparr>plain = strip_control_codes (emoji_replace R markup), spans = []\<rparr>
      else case render_loop R (parse markup) [] [] [] of
             Inl e \<Rightarrow> Inl e
           | Inr (tx, style_stack, sp) \<Rightarrow>
               Inr \<lparr>plain = tx,
                    spans = sort_key fst (rev (sp @ unclosed_spans style_stack (length tx)))\<rparr>)"

section \<open>The console\<close>

text \<open>\<^verbatim>\<open>_PrettyIndentHook\<close>: the two fields its \<^verbatim>\<open>__init__\<close> stores.\<close>

record PrettyIndentHook =
  indent_size :: int
  indent_guides :: bool

text \<open>
  \<^verbatim>\<open>process_renderables\<close> goes through the renderables, sets the two fields on every
  \<^verbatim>\<open>pretty.Pretty\<close> among them and returns them all in order. A renderable is a \<^verbatim>\<open>Pretty\<close>
  with the object it shows, its \<^verbatim>\<open>indent_size\<close> and its \<^verbatim>\<open>indent_guides\<close>, or something
  else.
  \<^verbatim>\<open>
  processed = []
  for item in renderables:
      if isinstance(item, pretty.Pretty):
          item.indent_size = self.indent_size
          item.indent_guides = self.indent_guides
      processed.append(item)
  return processed
  \<close>
\<close>

datatype renderable = Pretty pyval int bool | Other string

definition process_renderables :: "PrettyIndentHook \<Rightarrow> renderable list \<Rightarrow> renderable list" where
  "process_renderables self renderables =
     map (\<lambda>item. case item of
                   Pretty obj old_size old_guides \<Rightarrow> Pretty obj (indent_size self) (indent_guides self)
                 | Other r \<Rightarrow> Other r)
         renderables"

text \<open>
  A status indicator, as \<^verbatim>\<open>Console.status(status, spinner=..., **kwargs)\<close> builds it: the
  message, the spinner's name and the other options.
\<close>

record status =
  status_message :: msg
  status_spinner :: string
  status_options :: "(string \<times> pyval) list"

text \<open>
  A render hook on the console's stack: a \<^verbatim>\<open>_PrettyIndentHook\<close>, or the live display of a
  status indicator (\<^verbatim>\<open>Live.start\<close> pushes the live display itself).
\<close>

datatype hook = IndentHook PrettyIndentHook | LiveHook status

text \<open>
  What one \<^verbatim>\<open>Console.print\<close> showed: the objects it was given, the \<^verbatim>\<open>Text\<close> it made of each,
  \<^verbatim>\<open>sep\<close>, \<^verbatim>\<open>end\<close>, \<^verbatim>\<open>style\<close>, and the render hooks in force while it rendered.
\<close>

record printed =
  objects :: "pyval list"
  texts :: "Text list"
  sep_str :: string
  end_str :: string
  style :: "string option"
  hooks :: "hook list"

text \<open>
  The module's \<^verbatim>\<open>CONSOLE\<close>, as far as \<^verbatim>\<open>print\<close> and \<^verbatim>\<open>show_status\<close> touch it: the stack of
  render hooks (\<^verbatim>\<open>_render_hooks\<close>, the top last), the live display that is active (\<^verbatim>\<open>_live\<close>),
  and what \<^verbatim>\<open>print\<close> and \<^verbatim>\<open>show_status\<close> have had it print so far.
\<close>

record console =
  render_hooks :: "hook list"
  live :: "status option"
  shown :: "printed list"

text \<open>\<^verbatim>\<open>self._render_hooks.append(hook)\<close>\<close>

definition push_render_hook :: "hook \<Rightarrow> console \<Rightarrow> console" where
  "push_render_hook h c = c\<lparr>render_hooks := render_hooks c @ [h]\<rparr>"

text \<open>\<^verbatim>\<open>self._render_hooks.pop()\<close>: the top hook is taken off; an empty list raises.\<close>

definition pop_render_hook :: "console \<Rightarrow> exn + console" where
  "pop_render_hook c =
     (if render_hooks c = [] then Inl (Raised ''IndexError'')
      else Inr (c\<lparr>render_hooks := butlast (render_hooks c)\<rparr>))"

text \<open>
  The module's console is made with \<^verbatim>\<open>highlight=True\<close> and the module's highlighter, so
  every text it makes of an object is highlighted. A highlighter called on a \<^verbatim>\<open>str\<close> makes a
  \<^verbatim>\<open>Text\<close> of it and highlights that.
\<close>

definition highlighter :: "string \<Rightarrow> Text" where
  "highlighter s =
     (let p = strip_control_codes s
      in \<lparr>plain = p, spans = map (\<lambda>(s, e, name). (s, e, StyleName name)) (highlight p)\<rparr>)"

text \<open>
  \<^verbatim>\<open>Console.render_str\<close>, with markup, emoji and highlighting on as the console has them:
  \<^verbatim>\<open>
  rich_text = render_markup(text, style=style, emoji=emoji_enabled, ...)
  ...
  highlight_text = _highlighter(str(rich_text))
  highlight_text.copy_styles(rich_text)
  return highlight_text
  \<close>
  \<^verbatim>\<open>copy_styles\<close> appends the spans of the rendered markup to those of the highlighter.
\<close>

definition render_str :: "rich \<Rightarrow> string \<Rightarrow> exn + Text" where
  "render_str R s =
     (case render R s of
        Inl e \<Rightarrow> Inl e
      | Inr rich_text \<Rightarrow>
          (let highlight_text = highlighter (plain rich_text)
           in Inr (highlight_text\<lparr>spans := spans highlight_text @ spans rich_text\<rparr>)))"

text \<open>
  What \<^verbatim>\<open>Console._collect_renderables\<close> makes of one object:
  \<^verbatim>\<open>
  if isinstance(renderable, str):
      append_text(self.render_str(renderable, emoji=emoji, markup=markup, highlighter=_highlighter))
  elif isinstance(renderable, Text):
      append_text(renderable)
  ...
  else:
      append_text(_highlighter(str(renderable)))
  \<close>
  (the values of the model are neither renderables of their own nor containers).
\<close>

fun collect_one :: "rich \<Rightarrow> pyval \<Rightarrow> exn + Text" where
  "collect_one R (PStr s) = render_str R s"
| "collect_one R (PText s) = Inr \<lparr>plain = s, spans = []\<rparr>"
| "collect_one R v = (case py_str v of Inl e \<Rightarrow> Inl e | Inr s \<Rightarrow> Inr (highlighter s))"

text \<open>The objects are gone through in order; the first that raises ends the call.\<close>

fun collect_renderables :: "rich \<Rightarrow> pyval list \<Rightarrow> exn + Text list" where
  "collect_renderables R [] = Inr []"
| "collect_renderables R (v # vs) =
     (case collect_one R v of
        Inl e \<Rightarrow> Inl e
      | Inr t \<Rightarrow> (case collect_renderables R vs of Inl e \<Rightarrow> Inl e | Inr ts \<Rightarrow> Inr (t # ts)))"

text \<open>
  \<^verbatim>\<open>Console.print(*objects, sep, end, style)\<close>: the objects are collected, then rendered,
  with \<^verbatim>\<open>self.get_style(style)\<close> when a style is given. A call that raises has shown
  nothing. The render hooks stay as they are.
\<close>

definition console_print ::
  "rich \<Rightarrow> pyval list \<Rightarrow> string \<Rightarrow> string \<Rightarrow> string option \<Rightarrow> console \<Rightarrow> (exn + unit) \<times> console" where
  "console_print R objs sep endstr sty c =
     (case collect_renderables R objs of
        Inl e \<Rightarrow> (Inl e, c)
      | Inr ts \<Rightarrow>
          (case (case sty of None \<Rightarrow> None | Some s \<Rightarrow> style_error R s) of
             Some e \<Rightarrow> (Inl e, c)
           | None \<Rightarrow>
               (Inr (),
                c\<lparr>shown := shown c @
                     [\<lparr>objects = objs, texts = ts, sep_str = sep, end_str = endstr, style = sty,
                       hooks = render_hooks c\<rparr>]\<rparr>)))"

text \<open>
  The names of the spinners, the keys of \<^verbatim>\<open>SPINNERS\<close> in \<^verbatim>\<open>rich/_spinners.py\<close>.
\<close>

definition SPINNERS :: "string list" where
  "SPINNERS =
     [''dots'', ''dots2'', ''dots3'', ''dots4'', ''dots5'', ''dots6'', ''dots7'', ''dots8'',
      ''dots9'', ''dots10'', ''dots11'', ''dots12'', ''dots8Bit'', ''line'', ''line2'', ''pipe'',
      ''simpleDots'', ''simpleDotsScrolling'', ''star'', ''star2'', ''flip'', ''hamburger'',
      ''growVertical'', ''growHorizontal'', ''balloon'', ''balloon2'', ''noise'', ''bounce'',
      ''boxBounce'', ''boxBounce2'', ''triangle'', ''arc'', ''circle'', ''squareCorners'',
      ''circleQuarters'', ''circleHalves'', ''squish'', ''toggle'', ''toggle2'', ''toggle3'',
      ''toggle4'', ''toggle5'', ''toggle6'', ''toggle7'', ''toggle8'', ''toggle9'', ''toggle10'',
      ''toggle11'', ''toggle12'', ''toggle13'', ''arrow'', ''arrow2'', ''arrow3'', ''bouncingBar'',
      ''bouncingBall'', ''smiley'', ''monkey'', ''hearts'', ''clock'', ''earth'', ''material'',
      ''moon'', ''runner'', ''pong'', ''shark'', ''dqpb'', ''weather'', ''christmas'', ''grenade'',
      ''point'', ''layer'', ''betaWave'', ''aesthetic'']"

text \<open>
  \<^verbatim>\<open>Console.status(status, *, spinner, spinner_style, speed, refresh_per_second)\<close> makes
  the indicator: a keyword it does not have is a \<^verbatim>\<open>TypeError\<close> of the call; then
  \<^verbatim>\<open>Spinner.__init__\<close> looks the spinner up (\<^verbatim>\<open>KeyError\<close> for an unknown name) and renders
  a \<^verbatim>\<open>str\<close> message as markup; then the values of the options are used.
  \<^verbatim>\<open>
  try:
      spinner = SPINNERS[name]
  except KeyError:
      raise KeyError(f"no spinner called {name!r}")
  self.text = Text.from_markup(text) if isinstance(text, str) else text
  \<close>
\<close>

definition console_status :: "rich \<Rightarrow> msg \<Rightarrow> string \<Rightarrow> (string \<times> pyval) list \<Rightarrow> exn + status" where
  "console_status R status_msg spinner kwargs =
     (if \<not> list_all (\<lambda>(k, v). k \<in> {''spinner_style'', ''speed'', ''refresh_per_second''}) kwargs
      then Inl (Raised ''TypeError'')
      else if spinner \<notin> set SPINNERS then Inl (Raised ''KeyError'')
      else case (case status_msg of MStr s \<Rightarrow> render R s | MText s \<Rightarrow> Inr \<lparr>plain = s, spans = []\<rparr>) of
             Inl e \<Rightarrow> Inl e
           | Inr t \<Rightarrow>
               (case option_error R kwargs of
                  Some e \<Rightarrow> Inl e
                | None \<Rightarrow>
                    Inr \<lparr>status_message = status_msg, status_spinner = spinner,
                         status_options = kwargs\<rparr>))"

text \<open>
  \<^verbatim>\<open>Status.__enter__\<close> is \<^verbatim>\<open>Live.start\<close>:
  \<^verbatim>\<open>
  self.console.set_live(self)      # LiveError if the console has a live display
  ...
  self.console.push_render_hook(self)
  \<close>
\<close>

definition live_start :: "status \<Rightarrow> console \<Rightarrow> exn + console" where
  "live_start st c =
     (case live c of
        Some other \<Rightarrow> Inl (Raised ''LiveError'')
      | None \<Rightarrow> Inr (push_render_hook (LiveHook st) (c\<lparr>live := Some st\<rparr>)))"

text \<open>
  \<^verbatim>\<open>Status.__exit__\<close> is \<^verbatim>\<open>Live.stop\<close> and returns nothing, so an exception of the body goes
  on to the caller:
  \<^verbatim>\<open>
  self.console.clear_live()
  ...
  with self.console:
      try:
          if not self._alt_screen and not self.console.is_jupyter:
              self.refresh()
      finally:
          self._disable_redirect_io()
          self.console.pop_render_hook()
          ...
  \<close>
  The hook it pops is the one on top of the stack, whichever that is. An exception of the
  \<^verbatim>\<open>finally\<close> block replaces one of the refresh.
\<close>

definition live_stop :: "rich \<Rightarrow> status \<Rightarrow> console \<Rightarrow> (exn + unit) \<times> console" where
  "live_stop R st c =
     (let c1 = c\<lparr>live := None\<rparr>
      in case pop_render_hook c1 of
           Inl e \<Rightarrow> (Inl e, c1)
         | Inr c2 \<Rightarrow>
             (case refresh_error R (status_message st) (status_spinner st) (status_options st) of
                Some e \<Rightarrow> (Inl e, c2)
              | None \<Rightarrow> (Inr (), c2)))"

text \<open>
  \<^verbatim>\<open>with cm: body\<close>, for a context manager whose \<^verbatim>\<open>__exit__\<close> returns nothing: enter (an
  exception of \<^verbatim>\<open>__enter__\<close> ends the statement before the body), run the body, exit whether
  the body returned or raised, and pass the body's outcome on, unless \<^verbatim>\<open>__exit__\<close> raises
  itself.
\<close>

definition with_cm ::
  "(console \<Rightarrow> exn + console) \<Rightarrow> (console \<Rightarrow> (exn + unit) \<times> console) \<Rightarrow>
   (console \<Rightarrow> (exn + 'a) \<times> console) \<Rightarrow> console \<Rightarrow> (exn + 'a) \<times> console" where
  "with_cm enter exit body c =
     (case enter c of
        Inl e \<Rightarrow> (Inl e, c)
      | Inr c1 \<Rightarrow>
          (case body c1 of
             (outcome, c2) \<Rightarrow>
               (case exit c2 of
                  (Inl e, c3) \<Rightarrow> (Inl e, c3)
                | (Inr u, c3) \<Rightarrow> (outcome, c3))))"

section \<open>print\<close>

text \<open>
  \<^verbatim>\<open>
  to_print = [markup.escape(cnt) if isinstance(cnt, str) else cnt for cnt in content]
  hook = _PrettyIndentHook(indent_size=indent, indent_guides=show_guideline)
  CONSOLE.push_render_hook(hook)
  CONSOLE.print(*to_print, sep=sep, end=end)
  CONSOLE.pop_render_hook()
  \<close>
  A statement that raises ends the function there: the statements after it do not run.
\<close>

definition to_print :: "pyval list \<Rightarrow> pyval list" where
  "to_print content = map (\<lambda>cnt. case cnt of PStr s \<Rightarrow> PStr (escape s) | _ \<Rightarrow> cnt) content"

definition print ::
  "rich \<Rightarrow> pyval list \<Rightarrow> int \<Rightarrow> bool \<Rightarrow> string \<Rightarrow> string \<Rightarrow> console \<Rightarrow> (exn + unit) \<times> console" where
  "print R content indent show_guideline sep endstr c =
     (let hook = IndentHook \<lparr>indent_size = indent, indent_guides = show_guideline\<rparr>;
          c1 = push_render_hook hook c
      in case console_print R (to_print content) sep endstr None c1 of
           (Inl e, c2) \<Rightarrow> (Inl e, c2)
         | (Inr u, c2) \<Rightarrow>
             (case pop_render_hook c2 of Inl e \<Rightarrow> (Inl e, c2) | Inr c3 \<Rightarrow> (Inr (), c3)))"

section \<open>show_status\<close>

text \<open>
  \<^verbatim>\<open>getattr(instance, name, default)\<close>: the attribute of an instance, or the default when
  it has none of that name; the built-in values have no attribute \<^verbatim>\<open>_show_status\<close>.
\<close>

fun getattr :: "pyval \<Rightarrow> string \<Rightarrow> pyval \<Rightarrow> pyval" where
  "getattr (PObj attrs r) name dflt = (case map_of attrs name of Some v \<Rightarrow> v | None \<Rightarrow> dflt)"
| "getattr v name dflt = dflt"

text \<open>
  \<^verbatim>\<open>
  if args:
      instance = args[0]
      should_log = getattr(instance, "_show_status", True)
  else:
      should_log = True
  \<close>
\<close>

definition should_log :: "pyval list \<Rightarrow> pyval" where
  "should_log args =
     (case args of
        [] \<Rightarrow> PBool True
      | inst # _ \<Rightarrow> getattr inst ''_show_status'' (PBool True))"

text \<open>
  A wrapped function takes the positional and the keyword arguments and the console, and
  returns or raises, leaving the console as it made it.
\<close>

type_synonym pyfun =
  "pyval list \<Rightarrow> (string \<times> pyval) list \<Rightarrow> console \<Rightarrow> (exn + pyval) \<times> console"

text \<open>
  \<^verbatim>\<open>
  if should_log is False:
      function_output = func(*args, **kwargs)
      return function_output
  with CONSOLE.status(status_message, spinner=spinner, **status_kwargs):
      function_output = func(*args, **kwargs)
  CONSOLE.print(exit_message, style=exit_message_style)
  return function_output
  \<close>
  \<^verbatim>\<open>x is False\<close> holds for the one object \<^verbatim>\<open>False\<close> and for nothing else. An exception of
  \<^verbatim>\<open>CONSOLE.status(...)\<close> ends the call before anything is entered. \<^verbatim>\<open>CONSOLE.print\<close> is
  called with its defaults for \<^verbatim>\<open>sep\<close> and \<^verbatim>\<open>end\<close>.
\<close>

definition run_as_status ::
  "rich \<Rightarrow> msg \<Rightarrow> msg \<Rightarrow> string \<Rightarrow> string \<Rightarrow> (string \<times> pyval) list \<Rightarrow> pyfun \<Rightarrow> pyfun" where
  "run_as_status R status_msg exit_message exit_message_style spinner status_kwargs func
     args kwargs c =
     (if should_log args = PBool False then func args kwargs c
      else
        case console_status R status_msg spinner status_kwargs of
          Inl e \<Rightarrow> (Inl e, c)
        | Inr st \<Rightarrow>
            (case with_cm (live_start st) (live_stop R st) (func args kwargs) c of
               (Inl e, c1) \<Rightarrow> (Inl e, c1)
             | (Inr function_output, c1) \<Rightarrow>
                 (case console_print R [msg_val exit_message] '' '' [CHR 0x0A]
                         (Some exit_message_style) c1 of
                    (Inl e, c2) \<Rightarrow> (Inl e, c2)
                  | (Inr u, c2) \<Rightarrow> (Inr function_output, c2))))"

text \<open>
  \<^verbatim>\<open>show_status\<close>: the exit message defaults to the status message; the decorator it
  returns wraps \<open>func\<close> into \<open>run_as_status\<close>.
\<close>

definition show_status ::
  "rich \<Rightarrow> msg \<Rightarrow> msg option \<Rightarrow> string \<Rightarrow> string \<Rightarrow> (string \<times> pyval) list \<Rightarrow> pyfun \<Rightarrow> pyfun" where
  "show_status R status_msg exit_message exit_message_style spinner status_kwargs func =
     run_as_status R status_msg
       (case exit_message of None \<Rightarrow> status_msg | Some em \<Rightarrow> em)
       exit_message_style spinner status_kwargs func"

section \<open>The timestamp, in the words of the specification\<close>

text \<open>
  What the specification calls a leading bracketed \<^verbatim>\<open>HH:MM:SS\<close> timestamp: the text
  starts with an opening bracket, two digits, a colon, two digits, a colon, two digits
  and a closing bracket, where the first pair read as a number is at most 23 and the other
  two pairs are at most 59. This definition is not taken from the code; the code's rule is
  \<open>rule_TIME\<close>, and the two are compared below.
\<close>

definition digit_val :: "char \<Rightarrow> nat option" where
  "digit_val c = (if 48 \<le> code c \<and> code c \<le> 57 then Some (code c - 48) else None)"

definition two_digits :: "char \<Rightarrow> char \<Rightarrow> nat option" where
  "two_digits a b =
     (case (digit_val a, digit_val b) of
        (Some x, Some y) \<Rightarrow> Some (10 * x + y)
      | _ \<Rightarrow> None)"

definition below :: "nat \<Rightarrow> nat option \<Rightarrow> bool" where
  "below n v = (case v of None \<Rightarrow> False | Some x \<Rightarrow> x \<le> n)"

fun timestamp_at_start :: "string \<Rightarrow> bool" where
  "timestamp_at_start (b # h1 # h2 # c1 # m1 # m2 # c2 # s1 # s2 # e # rest) =
     (b = CHR ''['' \<and> c1 = CHR '':'' \<and> c2 = CHR '':'' \<and> e = CHR '']'' \<and>
      below 23 (two_digits h1 h2) \<and> below 59 (two_digits m1 m2) \<and> below 59 (two_digits s1 s2))"
| "timestamp_at_start line = False"


section \<open>Inputs used in the examples\<close>

text \<open>A console on which nothing has happened yet.\<close>

definition CONSOLE0 :: console where
  "CONSOLE0 = \<lparr>render_hooks = [], live = None, shown = []\<rparr>"

text \<open>
  A rich for the examples: no text holds an emoji code, every style is in canonical form
  and known to the console, and nothing of what is taken as given raises.
\<close>

definition RICH0 :: rich where
  "RICH0 =
     \<lparr>emoji_replace = (\<lambda>s. s), normalize = (\<lambda>s. s), meta_error = (\<lambda>p. None),
      style_error = (\<lambda>s. None), option_error = (\<lambda>kw. None),
      refresh_error = (\<lambda>status_msg spinner kw. None)\<rparr>"



section \<open>Properties of print\<close>

lemma collect_renderables_texts:
  "collect_renderables R objs = Inr ts \<Longrightarrow> length ts = length objs"
  by (induction objs arbitrary: ts) (auto split: sum.splits)

text \<open>
  When the console's print returns, \<open>print\<close> leaves the stack of render hooks as it
  found it.
\<close>

lemma print_restores_hooks_when_console_print_returns:
  assumes "print R content indent show_guideline sep endstr c = (Inr u, c')"
  shows "render_hooks c' = render_hooks c"
  using assms
  by (auto simp: print_def push_render_hook_def pop_render_hook_def console_print_def Let_def
      split: sum.splits option.splits if_splits)

text \<open>
  C1. The claim: the indentation hook that \<open>print\<close> pushes is popped again before the call
  ends, also when the console's print raises, so that the stack of render hooks is the
  same after the call as before. The code pops the hook in the statement after
  \<^verbatim>\<open>CONSOLE.print\<close>, outside any \<^verbatim>\<open>try\<close>/\<^verbatim>\<open>finally\<close>: printing one object whose \<^verbatim>\<open>__repr__\<close>
  raises ends \<open>print\<close> with that exception and with the hook still on the stack.
\<close>

theorem print_leaves_hook_when_console_print_raises:
  "print R [PObj attrs (Inl e)] indent show_guideline sep endstr c =
     (Inl e, c\<lparr>render_hooks :=
                 render_hooks c @
                 [IndentHook \<lparr>indent_size = indent, indent_guides = show_guideline\<rparr>]\<rparr>)"
  by (simp add: print_def to_print_def push_render_hook_def console_print_def)

section \<open>Properties of show_status\<close>

text \<open>
  C3. When the first positional argument is an instance whose attribute \<^verbatim>\<open>_show_status\<close>
  is \<^verbatim>\<open>False\<close>, the wrapper is the wrapped function on the same arguments: the same
  outcome, and a console on which nothing but the function has acted (no status
  indicator, no exit message).
\<close>

theorem show_status_suppressed:
  assumes "args = PObj attrs r # rest"
    and "map_of attrs ''_show_status'' = Some (PBool False)"
  shows "show_status R status_msg exit_message exit_message_style spinner status_kwargs func
           args kwargs c = func args kwargs c"
  using assms by (simp add: show_status_def run_as_status_def should_log_def)

theorem show_status_suppressed_witness:
  "show_status RICH0 (MStr ''running'') None ''dark_sea_green1'' ''dots'' []
     (\<lambda>args kwargs c. (Inr (PInt (int (length args))), c))
     [PObj [(''_show_status'', PBool False)] (Inr ''obj''), PInt 5] []
     CONSOLE0
   = (Inr (PInt 2), CONSOLE0)"
  using show_status_suppressed
    [of "[PObj [(''_show_status'', PBool False)] (Inr ''obj''), PInt 5]"
        "[(''_show_status'', PBool False)]" "Inr ''obj''" "[PInt 5]"
        RICH0 "MStr ''running''" None "''dark_sea_green1''" "''dots''" "[]"
        "\<lambda>args kwargs c. (Inr (PInt (int (length args))), c)" "[]" CONSOLE0]
  by simp







section \<open>Properties of the theme and of the highlighter\<close>

text \<open>
  C9. The named groups of the rules are the nineteen names listed, and the style name
  the highlighter gives each of them (the empty \<open>base_style\<close> and the group's name) is a
  key of the theme.
\<close>

theorem style_names_in_theme:
  "set (concat (map group_names highlights)) =
     {''CONSTANT'', ''STR'', ''NUMBER'', ''TRUE'', ''FALSE'', ''NONE'', ''ENUM'',
      ''DATACLASS_NAME'', ''DICT_KEY'', ''PUNCTUATION'', ''HOUR'', ''MINUTE'', ''SECOND'',
      ''FUNCTION_NAME'', ''HEX_ADDRESS'', ''INSTANCE_CLS'', ''CLASS'', ''MODULE'',
      ''MODULE_FROM''} \<and>
   list_all (\<lambda>name. map_of DEFAULT_THEME name \<noteq> None) style_names"
  by code_simp

text \<open>
  C4. The claim: in the line \<^verbatim>\<open>CONST_NAME = 'value'\<close> the span \<^verbatim>\<open>CONST_NAME\<close>, characters
  0 to 10, is tagged CONSTANT. It is not.
\<close>

theorem const_line_no_constant_counterexample:
  "(0, 10, ''CONSTANT'') \<notin> set (highlight (''CONST_NAME = '' @ [SQ] @ ''value'' @ [SQ]))"
  by code_simp

text \<open>
  C4, as the code has it. The CONSTANT rule starts with a whitespace character, which the
  start of the line does not give it: in \<^verbatim>\<open>CONST_NAME = 'value'\<close> no span is tagged
  CONSTANT, and with a space in front of the line the span of that space and
  \<^verbatim>\<open>CONST_NAME\<close> is. The span \<^verbatim>\<open>'value'\<close>, characters 13 to 20, is tagged STR, and no span
  is tagged DICT_KEY.
\<close>

theorem const_line_spans:
  "tagged ''CONSTANT'' (highlight (''CONST_NAME = '' @ [SQ] @ ''value'' @ [SQ])) = [] \<and>
   tagged ''CONSTANT'' (highlight ('' CONST_NAME = '' @ [SQ] @ ''value'' @ [SQ])) = [(0, 11)] \<and>
   tagged ''STR'' (highlight (''CONST_NAME = '' @ [SQ] @ ''value'' @ [SQ])) = [(13, 20)] \<and>
   tagged ''DICT_KEY'' (highlight (''CONST_NAME = '' @ [SQ] @ ''value'' @ [SQ])) = []"
  by code_simp

text \<open>
  C5. In the line \<^verbatim>\<open>{'key': 1}\<close> the span \<^verbatim>\<open>'key'\<close>, characters 1 to 6, is tagged DICT_KEY
  and the span \<^verbatim>\<open>1\<close>, characters 8 to 9, is tagged NUMBER; no other span has either tag.
\<close>

theorem dict_line_spans:
  "tagged ''DICT_KEY'' (highlight (''{'' @ [SQ] @ ''key'' @ [SQ] @ '': 1}'')) = [(1, 6)] \<and>
   tagged ''NUMBER'' (highlight (''{'' @ [SQ] @ ''key'' @ [SQ] @ '': 1}'')) = [(8, 9)]"
  by code_simp

section \<open>Properties of the timestamp rule\<close>

text \<open>A tag that is no group name of a rule is on no span the rule appends.\<close>

lemma tagged_append: "tagged t (xs @ ys) = tagged t xs @ tagged t ys"
  by (simp add: tagged_def)

lemma tagged_concat: "tagged t (concat xss) = concat (map (tagged t) xss)"
  by (induction xss) (simp_all add: tagged_append, simp add: tagged_def)

lemma tagged_group_spans_other:
  "t \<notin> set names \<Longrightarrow> tagged t (group_spans [] names c) = []"
  by (induction names) (auto simp: group_spans_def tagged_def split: option.splits)

lemma tagged_highlight_regex_other:
  assumes "t \<notin> set (group_names r)"
  shows "tagged t (highlight_regex r [] tx) = []"
  using assms
  by (auto simp: highlight_regex_def tagged_concat tagged_group_spans_other)

lemma char_eq_code: "(c = d) = (code c = code d)"
  by (simp add: code_def)

lemma first_match_TIME_later:
  "pre \<noteq> [] \<Longrightarrow> first_match rule_TIME adv pre rest = None"
  by (simp add: rule_TIME_def cat_def first_match_def)

lemma finditer_TIME_later:
  "pre \<noteq> [] \<Longrightarrow> finditer rule_TIME adv pre rest = []"
proof (induction rest arbitrary: pre adv)
  case Nil
  then show ?case
    by (subst finditer.simps) (simp add: first_match_TIME_later)
next
  case (Cons x xs)
  then show ?case
    by (subst finditer.simps) (simp add: first_match_TIME_later)
qed

lemma minute_range:
  "below 59 (two_digits a b) =
     (between (code CHR ''0'') (code CHR ''5'') a \<and> between (code CHR ''0'') (code CHR ''9'') b)"
  by (auto simp: below_def two_digits_def digit_val_def between_def code_def
      split: option.splits if_splits)

lemma hour_range:
  "below 23 (two_digits a b) =
     ((a = CHR ''2'' \<and> between (code CHR ''0'') (code CHR ''3'') b) \<or>
      ((a = CHR ''0'' \<or> a = CHR ''1'') \<and> between (code CHR ''0'') (code CHR ''9'') b))"
proof -
  have a: "(a = CHR ''2'') = (code a = 50)" "(a = CHR ''0'') = (code a = 48)"
    "(a = CHR ''1'') = (code a = 49)"
    by (simp_all add: char_eq_code[of a] code_def)
  show ?thesis
    unfolding a
    by (auto simp: below_def two_digits_def digit_val_def between_def code_def
        split: option.splits if_splits)
qed

lemma m_TIME_start:
  "m rule_TIME ([], s, []) =
     (if timestamp_at_start s
      then [(rev (take 10 s), drop 10 s,
             [(''SECOND'', 7, 9), (''MINUTE'', 4, 6), (''HOUR'', 1, 3)])]
      else [])"
proof (cases s rule: timestamp_at_start.cases)
  case (1 b h1 h2 c1 m1 m2 c2 s1 s2 e rest)
  show ?thesis
    unfolding 1
    by (auto simp: rule_TIME_def cat_def minute_range hour_range)
qed (simp_all add: rule_TIME_def cat_def)

lemma finditer_TIME:
  "finditer rule_TIME False [] s =
     (if timestamp_at_start s
      then [(0, 10, [(''SECOND'', 7, 9), (''MINUTE'', 4, 6), (''HOUR'', 1, 3)])]
      else [])"
proof (cases "timestamp_at_start s")
  case True
  then have len: "10 \<le> length s"
    by (cases s rule: timestamp_at_start.cases) simp_all
  from True have "first_match rule_TIME False [] s =
      Some (rev (take 10 s), drop 10 s,
            [(''SECOND'', 7, 9), (''MINUTE'', 4, 6), (''HOUR'', 1, 3)])"
    by (simp add: first_match_def m_TIME_start)
  moreover have "rev (take 10 s) \<noteq> []" using len by auto
  ultimately show ?thesis
    using True len finditer_TIME_later[of "rev (take 10 s)"]
    by (subst finditer.simps) simp
next
  case False
  then have none: "first_match rule_TIME False [] s = None"
    by (simp add: first_match_def m_TIME_start)
  show ?thesis
  proof (cases s)
    case Nil
    with none False show ?thesis by (subst finditer.simps) simp
  next
    case (Cons x xs)
    with none False finditer_TIME_later[of "[x]" False xs] show ?thesis
      by (subst finditer.simps) simp
  qed
qed

lemma group_names_TIME: "group_names rule_TIME = [''HOUR'', ''MINUTE'', ''SECOND'']"
  by (simp add: rule_TIME_def cat_def)

lemma highlight_regex_TIME:
  "highlight_regex rule_TIME base_style line =
     (if timestamp_at_start line
      then [(1, 3, ''HOUR''), (4, 6, ''MINUTE''), (7, 9, ''SECOND'')]
      else [])"
  by (simp add: highlight_regex_def finditer_TIME base_style_def group_spans_def
      group_names_TIME)

lemma group_names_rules:
  "group_names rule_CONSTANT = [''CONSTANT'']"
  "group_names rule_STR = [''STR'']"
  "group_names rule_NUMBER = [''NUMBER'']"
  "group_names rule_TRUE = [''TRUE'']"
  "group_names rule_FALSE = [''FALSE'']"
  "group_names rule_NONE = [''NONE'']"
  "group_names rule_ENUM = [''ENUM'']"
  "group_names rule_DATACLASS_NAME = [''DATACLASS_NAME'']"
  "group_names rule_DICT_KEY = [''DICT_KEY'']"
  "group_names rule_PUNCTUATION = [''PUNCTUATION'']"
  "group_names rule_FUNCTION = [''FUNCTION_NAME'', ''HEX_ADDRESS'']"
  "group_names rule_INSTANCE = [''INSTANCE_CLS'', ''HEX_ADDRESS'']"
  "group_names rule_CLASS = [''CLASS'']"
  "group_names rule_MODULE = [''MODULE'']"
  "group_names rule_MODULE_FROM = [''MODULE_FROM'']"
  by (simp_all add: rule_CONSTANT_def rule_STR_def rule_NUMBER_def rule_TRUE_def
      rule_FALSE_def rule_NONE_def rule_ENUM_def rule_DATACLASS_NAME_def rule_DICT_KEY_def
      rule_PUNCTUATION_def rule_FUNCTION_def rule_INSTANCE_def rule_CLASS_def
      rule_MODULE_def rule_MODULE_FROM_def cat_def alts_def)

lemma tagged_other:
  "t \<notin> set (group_names r) \<Longrightarrow> tagged t (highlight_regex r base_style line) = []"
  by (simp add: base_style_def tagged_highlight_regex_other)

lemma tagged_TIME:
  "tagged ''HOUR'' (highlight line) = (if timestamp_at_start line then [(1, 3)] else []) \<and>
   tagged ''MINUTE'' (highlight line) = (if timestamp_at_start line then [(4, 6)] else []) \<and>
   tagged ''SECOND'' (highlight line) = (if timestamp_at_start line then [(7, 9)] else [])"
  by (simp add: highlight_def highlights_def tagged_append tagged_other group_names_rules
      highlight_regex_TIME)
     (simp add: tagged_def)

text \<open>
  C8. For every text, the highlighter's spans tagged HOUR, MINUTE and SECOND are the three
  pairs of digits (characters 1 to 3, 4 to 6 and 7 to 9) when the text starts with a
  bracketed timestamp whose hour is at most 23 and whose minute and second are at most 59,
  and there are none otherwise: a bracketed time further on in the text, or one with a
  component out of range, gets none of the three tags.
\<close>

theorem timestamp_tags:
  "tagged ''HOUR'' (highlight line) = (if timestamp_at_start line then [(1, 3)] else []) \<and>
   tagged ''MINUTE'' (highlight line) = (if timestamp_at_start line then [(4, 6)] else []) \<and>
   tagged ''SECOND'' (highlight line) = (if timestamp_at_start line then [(7, 9)] else [])"
  by (rule tagged_TIME)

text \<open>
  What \<open>format_timestamp\<close> makes of a time of day is such a text: with the module's
  highlighter its hour, minute and second get their tags.
\<close>

lemma two_digits_pad2:
  assumes "n < 100"
  shows "two_digits (char_of (48 + n div 10)) (char_of (48 + n mod 10)) = Some n"
proof -
  have a: "n div 10 < 10" using assms by simp
  have b: "n mod 10 < 10" by simp
  have "code (char_of (48 + n div 10)) = 48 + n div 10"
    using a by (simp add: code_def)
  moreover have "code (char_of (48 + n mod 10)) = 48 + n mod 10"
    using b by (simp add: code_def)
  ultimately show ?thesis
    using a b by (simp add: two_digits_def digit_val_def)
qed

lemma timestamp_at_start_strftime:
  assumes "hour dt < 24" "minute dt < 60" "second dt < 60"
  shows "timestamp_at_start (strftime_X dt)"
  using assms
  by (simp add: strftime_X_def pad2_def two_digits_pad2 below_def)

lemma format_timestamp_tags:
  assumes "hour dt < 24" "minute dt < 60" "second dt < 60"
  shows "tagged ''HOUR'' (format_timestamp highlight dt) = [(1, 3)]"
    and "tagged ''MINUTE'' (format_timestamp highlight dt) = [(4, 6)]"
    and "tagged ''SECOND'' (format_timestamp highlight dt) = [(7, 9)]"
  using tagged_TIME[of "strftime_X dt"] timestamp_at_start_strftime[OF assms]
  by (simp_all add: format_timestamp_def)

section \<open>The matcher on compound patterns\<close>


subsection \<open>Scanning: where a pattern does not match, and where it does\<close>



lemma finditer_hit:
  assumes "m r (pre, tx, []) = (pre', rest', c) # zs" and "length pre < length pre'"
  shows "finditer r adv pre tx = (length pre, length pre', c) # finditer r False pre' rest'"
proof -
  have "first_match r adv pre tx = Some (pre', rest', c)"
    by (simp add: first_match_def assms)
  then show ?thesis using assms(2) by (subst finditer.simps) simp
qed



lemma in_digit_range [simp]: "in_cset (Pos [Rng CHR ''0'' CHR ''9'']) x = is_digit x"
  by (simp add: is_digit_def code_def)

lemma in_ClsD [simp]: "in_cset (Pos [ClsD]) x = is_digit x"
  by simp


subsection \<open>The matcher on sequences, options and repetitions\<close>













lemma m_Lit_hit: "m (Lit l) (pre, l @ t, c) = [(rev l @ pre, t, c)]"
  by simp







lemma takeWhile_run:
  assumes "list_all P xs" and "case t of [] \<Rightarrow> True | x # _ \<Rightarrow> \<not> P x"
  shows "takeWhile P (xs @ t) = xs"
proof -
  have "takeWhile P t = []" using assms(2) by (cases t) simp_all
  with assms(1) show ?thesis by (simp add: takeWhile_append2 list_all_iff)
qed


text \<open>The lazy repetition, one character at a time.\<close>

lemma m_lazy_Nil: "m (Seq (Rep False 0 cs) R) (pre, [], c) = m R (pre, [], c)"
  by simp

lemma m_lazy_Cons:
  "m (Seq (Rep False 0 cs) R) (pre, x # t, c) =
     m R (pre, x # t, c) @ (if in_cset cs x then m (Seq (Rep False 0 cs) R) (x # pre, t, c) else [])"
proof (cases "in_cset cs x")
  case False
  then show ?thesis by simp
next
  case True
  let ?k = "length (takeWhile (in_cset cs) t)"
  have upt: "[0..<Suc (Suc ?k)] = 0 # map Suc [0..<Suc ?k]"
    by (simp only: map_Suc_upt upt_conv_Cons[of 0 "Suc (Suc ?k)"])
  show ?thesis
    using True by (simp add: upt comp_def del: upt_Suc)
qed

text \<open>From here on the equations of the matcher are used where they are named.\<close>

declare m.simps [simp del]

lemmas m_Eps = m.simps(1)






section \<open>Where the patterns of the markup match\<close>

text \<open>
  Both patterns of \<^verbatim>\<open>markup.py\<close> match a run of backslashes followed by a tag: an opening
  bracket, a first character from \<^verbatim>\<open>[a-z#/@]\<close>, and the shortest text without an opening
  bracket that a closing bracket follows. The functions below find that directly.
  \<open>tag_scan\<close> is the position of the first closing bracket when no opening bracket comes
  before it; \<open>tag_len\<close> is the length of the tag a text starts with; \<open>esc_at\<close> is the number
  of backslashes a text starts with and the length of the tag after them.
\<close>

fun tag_scan :: "string \<Rightarrow> nat option" where
  "tag_scan [] = None"
| "tag_scan (x # xs) =
     (if x = CHR '']'' then Some 0
      else if x = CHR ''['' then None
      else map_option Suc (tag_scan xs))"

fun tag_len :: "string \<Rightarrow> nat option" where
  "tag_len (a # b # xs) =
     (if a = CHR ''['' \<and> in_cset tag_start b then map_option (\<lambda>n. n + 3) (tag_scan xs)
      else None)"
| "tag_len xs = None"

definition esc_at :: "string \<Rightarrow> (nat \<times> nat) option" where
  "esc_at t =
     (let k = length (takeWhile (\<lambda>x. x = BSL) t)
      in map_option (\<lambda>n. (k, n)) (tag_len (drop k t)))"

lemma tag_start_chars:
  "in_cset tag_start ch \<Longrightarrow> ch \<noteq> BSL \<and> ch \<noteq> CHR ''['' \<and> ch \<noteq> CHR '']''"
  by (auto simp: tag_start_def between_def code_def)

lemma m_Seq_Eps: "m (Seq a Eps) st = m a st"
proof -
  have "m Eps = (\<lambda>st. [st])" by (rule ext) (simp add: m.simps)
  then show ?thesis by (simp add: m.simps)
qed

lemma m_close: "m (Seq (Lit '']'') Eps) (pre, x # t, c) = (if x = CHR '']'' then [(x # pre, t, c)] else [])"
  by (simp add: m.simps)

lemma m_close_nil: "m (Seq (Lit '']'') Eps) (pre, [], c) = []"
  by (simp add: m.simps)

lemma in_not_open: "in_cset (Neg [Ch CHR ''['']) x = (x \<noteq> CHR ''['')"
  by simp

lemma lazy_none:
  "tag_scan xs = None \<Longrightarrow>
   m (Seq (Rep False 0 (Neg [Ch CHR ''['']))  (Seq (Lit '']'') Eps)) (pre, xs, c) = []"
proof (induction xs arbitrary: pre)
  case Nil
  show ?case by (simp only: m_lazy_Nil m_close_nil)
next
  case (Cons x xs)
  from Cons.prems have x: "x \<noteq> CHR '']''"
    by (auto split: if_splits)
  show ?case
  proof (cases "x = CHR ''[''")
    case True
    with x show ?thesis by (simp only: m_lazy_Cons m_close in_not_open) simp
  next
    case False
    with Cons.prems x have "tag_scan xs = None" by simp
    from Cons.IH[OF this] False x show ?thesis
      by (simp only: m_lazy_Cons m_close in_not_open) simp
  qed
qed

lemma lazy_some:
  "tag_scan xs = Some n \<Longrightarrow>
   \<exists>zs. m (Seq (Rep False 0 (Neg [Ch CHR ''[''])) (Seq (Lit '']'') Eps)) (pre, xs, c) =
          (rev (take (Suc n) xs) @ pre, drop (Suc n) xs, c) # zs"
proof (induction xs arbitrary: pre n)
  case Nil
  then show ?case by simp
next
  case (Cons x xs)
  show ?case
  proof (cases "x = CHR '']''")
    case True
    with Cons.prems have "n = 0" by simp
    with True show ?thesis by (simp only: m_lazy_Cons m_close) simp
  next
    case False
    with Cons.prems have nopen: "x \<noteq> CHR ''[''" by (auto split: if_splits)
    with Cons.prems False obtain n' where n': "tag_scan xs = Some n'" "n = Suc n'"
      by auto
    from Cons.IH[OF n'(1), of "x # pre"] obtain zs where
      "m (Seq (Rep False 0 (Neg [Ch CHR ''[''])) (Seq (Lit '']'') Eps)) (x # pre, xs, c) =
         (rev (take (Suc n') xs) @ x # pre, drop (Suc n') xs, c) # zs"
      by blast
    with False nopen n'(2) show ?thesis
      by (simp only: m_lazy_Cons m_close in_not_open) simp
  qed
qed

text \<open>The tag of \<open>escape_re\<close>, group 2.\<close>

definition tag2 :: re where
  "tag2 = Named ''2'' (cat [Lit ''['', One tag_start, Rep False 0 (Neg [Ch CHR ''['']), Lit '']''])"

lemma tag2_unfold:
  "m tag2 (pre, a # b # xs, c) =
     (if a = CHR ''['' \<and> in_cset tag_start b
      then map (\<lambda>(pre', rest', c'). (pre', rest', (''2'', length pre, length pre') # c'))
             (m (Seq (Rep False 0 (Neg [Ch CHR ''[''])) (Seq (Lit '']'') Eps)) (b # a # pre, xs, c))
      else [])"
  by (simp add: tag2_def cat_def m.simps)

lemma tag2_short: "length t < 2 \<Longrightarrow> m tag2 (pre, t, c) = []"
  by (cases t; cases "tl t") (auto simp: tag2_def cat_def m.simps)

lemma tag2_none: "tag_len t = None \<Longrightarrow> m tag2 (pre, t, c) = []"
proof -
  assume none: "tag_len t = None"
  consider (long) a b xs where "t = a # b # xs" | (short) "length t < 2"
    by (cases t; cases "tl t") auto
  then show ?thesis
  proof cases
    case (long a b xs)
    show ?thesis
    proof (cases "a = CHR ''['' \<and> in_cset tag_start b")
      case True
      with none long have "tag_scan xs = None" by simp
      from lazy_none[OF this] True long show ?thesis by (simp only: tag2_unfold) simp
    next
      case False
      with long show ?thesis by (simp only: tag2_unfold) simp
    qed
  next
    case short
    then show ?thesis by (rule tag2_short)
  qed
qed

lemma tag_len_bounds: "tag_len t = Some n \<Longrightarrow> 3 \<le> n \<and> n \<le> length t"
proof (cases t rule: tag_len.cases)
  case (1 a b xs)
  assume some: "tag_len t = Some n"
  have scan: "\<And>n. tag_scan xs = Some n \<Longrightarrow> n < length xs"
  proof (induction xs)
    case Nil
    then show ?case by simp
  next
    case (Cons x xs)
    then show ?case by (auto split: if_splits)
  qed
  from some 1 obtain n0 where "tag_scan xs = Some n0" "n = n0 + 3"
    by (auto split: if_splits)
  with scan[of n0] 1 show ?thesis by simp
qed simp_all

lemma tag2_some:
  assumes "tag_len t = Some n"
  shows "\<exists>zs. m tag2 (pre, t, c) =
           (rev (take n t) @ pre, drop n t, (''2'', length pre, length pre + n) # c) # zs"
proof (cases t rule: tag_len.cases)
  case (1 a b xs)
  with assms have ab: "a = CHR ''['' \<and> in_cset tag_start b"
    by (auto split: if_splits)
  with assms 1 obtain n0 where n0: "tag_scan xs = Some n0" "n = n0 + 3"
    by auto
  from lazy_some[OF n0(1), of "b # a # pre" c] obtain zs where
    zs: "m (Seq (Rep False 0 (Neg [Ch CHR ''[''])) (Seq (Lit '']'') Eps)) (b # a # pre, xs, c) =
           (rev (take (Suc n0) xs) @ b # a # pre, drop (Suc n0) xs, c) # zs"
    by blast
  from tag_len_bounds[OF assms] 1 n0 have "Suc n0 \<le> length xs" by simp
  then have len: "length (take (Suc n0) xs) = Suc n0" by simp
  show ?thesis
    unfolding 1 tag2_unfold zs using ab n0(2) len
    by (simp add: eval_nat_numeral)
qed (use assms in simp_all)


text \<open>The tag of \<open>RE_TAGS\<close>, with group 3 inside the brackets.\<close>

definition tag3 :: re where
  "tag3 =
     cat [Lit ''['', Named ''3'' (cat [One tag_start, Rep False 0 (Neg [Ch CHR ''[''])]),
          Lit '']'']"

lemma m_lazy_states:
  "m (Rep False 0 cs) (pre, x # t, c) =
     (pre, x # t, c) # (if in_cset cs x then m (Rep False 0 cs) (x # pre, t, c) else [])"
  using m_lazy_Cons[of cs Eps pre x t c] by (simp add: m_Seq_Eps m_Eps)

lemma m_lazy_states_nil: "m (Rep False 0 cs) (pre, [], c) = [(pre, [], c)]"
  by (simp add: m.simps)

lemma m_Seq_One:
  "m (Seq (One cs) Y) (pre, b # xs, c) = (if in_cset cs b then m Y (b # pre, xs, c) else [])"
  by (simp add: m.simps)

lemma m_Seq_Lit1: "m (Seq (Lit [a]) Y) (pre, x # t, c) = (if x = a then m Y (a # pre, t, c) else [])"
  by (simp add: m.simps)

lemma m_Seq_Named:
  "m (Seq (Named n X) Y) (pre, t, c) =
     concat (map (m Y) (map (\<lambda>(p', r', c'). (p', r', (n, length pre, length p') # c'))
                          (m X (pre, t, c))))"
  by (simp add: m.simps)

lemma lazy3_none:
  "tag_scan xs = None \<Longrightarrow>
   concat (map (m (Seq (Lit '']'') Eps))
             (map (\<lambda>(p', r', c'). (p', r', (''3'', s0, length p') # c'))
                (m (Rep False 0 (Neg [Ch CHR ''[''])) (pre, xs, c)))) = []"
proof (induction xs arbitrary: pre)
  case Nil
  show ?case by (simp add: m_lazy_states_nil m_close_nil)
next
  case (Cons x xs)
  from Cons.prems have x: "x \<noteq> CHR '']''"
    by (auto split: if_splits)
  show ?case
  proof (cases "x = CHR ''[''")
    case True
    with x show ?thesis by (simp add: m_lazy_states m_close)
  next
    case False
    with Cons.prems x have "tag_scan xs = None" by simp
    from Cons.IH[OF this, of "x # pre"] False x show ?thesis
      by (simp add: m_lazy_states m_close)
  qed
qed

lemma lazy3_some:
  "tag_scan xs = Some n \<Longrightarrow>
   \<exists>zs. concat (map (m (Seq (Lit '']'') Eps))
                 (map (\<lambda>(p', r', c'). (p', r', (''3'', s0, length p') # c'))
                    (m (Rep False 0 (Neg [Ch CHR ''[''])) (pre, xs, c)))) =
          (rev (take (Suc n) xs) @ pre, drop (Suc n) xs, (''3'', s0, length pre + n) # c) # zs"
proof (induction xs arbitrary: pre n)
  case Nil
  then show ?case by simp
next
  case (Cons x xs)
  show ?case
  proof (cases "x = CHR '']''")
    case True
    with Cons.prems have "n = 0" by simp
    with True show ?thesis by (simp add: m_lazy_states m_close)
  next
    case False
    with Cons.prems have nopen: "x \<noteq> CHR ''[''" by (auto split: if_splits)
    with Cons.prems False obtain n' where n': "tag_scan xs = Some n'" "n = Suc n'"
      by auto
    from Cons.IH[OF n'(1), of "x # pre"] obtain zs where
      "concat (map (m (Seq (Lit '']'') Eps))
                 (map (\<lambda>(p', r', c'). (p', r', (''3'', s0, length p') # c'))
                    (m (Rep False 0 (Neg [Ch CHR ''[''])) (x # pre, xs, c)))) =
         (rev (take (Suc n') xs) @ x # pre, drop (Suc n') xs,
          (''3'', s0, length (x # pre) + n') # c) # zs"
      by blast
    with False nopen n'(2) show ?thesis
      by (simp add: m_lazy_states m_close)
  qed
qed

lemma tag3_unfold:
  "m tag3 (pre, a # b # xs, c) =
     (if a = CHR ''['' \<and> in_cset tag_start b
      then concat (map (m (Seq (Lit '']'') Eps))
             (map (\<lambda>(p', r', c'). (p', r', (''3'', Suc (length pre), length p') # c'))
                (m (Rep False 0 (Neg [Ch CHR ''[''])) (b # a # pre, xs, c))))
      else [])"
proof -
  have "m tag3 (pre, a # b # xs, c) =
          (if a = CHR ''['' then
             concat (map (m (Seq (Lit '']'') Eps))
               (map (\<lambda>(p', r', c'). (p', r', (''3'', length (CHR ''['' # pre), length p') # c'))
                  (if in_cset tag_start b
                   then m (Rep False 0 (Neg [Ch CHR ''[''])) (b # CHR ''['' # pre, xs, c) else [])))
           else [])"
    by (simp only: tag3_def cat_def foldr.simps o_apply id_apply m_Seq_Lit1 m_Seq_Named m_Seq_One m_Seq_Eps)
  then show ?thesis by simp
qed

lemma tag3_short: "length t < 2 \<Longrightarrow> m tag3 (pre, t, c) = []"
  by (cases t; cases "tl t") (auto simp: tag3_def cat_def m.simps)

lemma tag3_none: "tag_len t = None \<Longrightarrow> m tag3 (pre, t, c) = []"
proof -
  assume none: "tag_len t = None"
  consider (long) a b xs where "t = a # b # xs" | (short) "length t < 2"
    by (cases t; cases "tl t") auto
  then show ?thesis
  proof cases
    case (long a b xs)
    show ?thesis
    proof (cases "a = CHR ''['' \<and> in_cset tag_start b")
      case True
      with none long have "tag_scan xs = None" by simp
      from lazy3_none[OF this] True long show ?thesis by (simp only: tag3_unfold) simp
    next
      case False
      with long show ?thesis by (simp only: tag3_unfold) simp
    qed
  next
    case short
    then show ?thesis by (rule tag3_short)
  qed
qed

lemma tag3_some:
  assumes "tag_len t = Some n"
  shows "\<exists>zs. m tag3 (pre, t, c) =
           (rev (take n t) @ pre, drop n t,
            (''3'', Suc (length pre), length pre + n - 1) # c) # zs"
proof (cases t rule: tag_len.cases)
  case (1 a b xs)
  with assms have ab: "a = CHR ''['' \<and> in_cset tag_start b"
    by (auto split: if_splits)
  with assms 1 obtain n0 where n0: "tag_scan xs = Some n0" "n = n0 + 3"
    by auto
  from lazy3_some[OF n0(1), of "Suc (length pre)" "b # a # pre" c] obtain zs where
    zs: "concat (map (m (Seq (Lit '']'') Eps))
                 (map (\<lambda>(p', r', c'). (p', r', (''3'', Suc (length pre), length p') # c'))
                    (m (Rep False 0 (Neg [Ch CHR ''[''])) (b # a # pre, xs, c)))) =
           (rev (take (Suc n0) xs) @ b # a # pre, drop (Suc n0) xs,
            (''3'', Suc (length pre), length (b # a # pre) + n0) # c) # zs"
    by blast
  from tag_len_bounds[OF assms] 1 n0 have "Suc n0 \<le> length xs" by simp
  then have len: "length (take (Suc n0) xs) = Suc n0" by simp
  show ?thesis
    unfolding 1 tag3_unfold zs using ab n0(2) len
    by (simp add: eval_nat_numeral)
qed (use assms in simp_all)

text \<open>The run of backslashes in front: the greedy repetition takes all of them.\<close>

lemma concat_upt_last:
  assumes "\<And>j. j < k \<Longrightarrow> f j = []"
  shows "concat (map f (rev [0..<Suc k])) = f k"
proof -
  have "concat (map f (rev [0..<k])) = []"
    using assms by (simp add: concat_eq_Nil_conv)
  then show ?thesis by simp
qed

lemma bs_run:
  assumes K: "\<And>p t c. m K (p, BSL # t, c) = []"
    and r: "case r of [] \<Rightarrow> True | y # _ \<Rightarrow> y \<noteq> BSL"
  shows "m (Seq (Named g (Rep True 0 (Pos [Ch BSL]))) K) (pre, replicate k BSL @ r, c) =
           m K (replicate k BSL @ pre, r, (g, length pre, length pre + k) # c)"
proof -
  let ?t = "replicate k BSL @ r"
  have tw: "takeWhile (in_cset (Pos [Ch BSL])) ?t = replicate k BSL"
    by (rule takeWhile_run) (use r in \<open>auto simp: list_all_iff split: list.splits\<close>)
  let ?f = "\<lambda>j. m K (rev (take j ?t) @ pre, drop j ?t, (g, length pre, length (rev (take j ?t) @ pre)) # c)"
  have "m (Seq (Named g (Rep True 0 (Pos [Ch BSL]))) K) (pre, ?t, c) =
          concat (map ?f (rev [0..<Suc k]))"
    by (simp add: m.simps tw Let_def comp_def del: upt_Suc)
  also have "\<dots> = ?f k"
  proof (rule concat_upt_last)
    fix j assume "j < k"
    then obtain d where d: "k - j = Suc d" by (cases "k - j") simp_all
    have "drop j ?t = replicate (k - j) BSL @ r" using \<open>j < k\<close> by simp
    then have "drop j ?t = BSL # replicate d BSL @ r" by (simp add: d)
    then show "?f j = []" by (simp add: K)
  qed
  also have "?f k = m K (replicate k BSL @ pre, r, (g, length pre, length pre + k) # c)"
    by (simp add: add.commute)
  finally show ?thesis .
qed

lemma run_split:
  "t = replicate (length (takeWhile (\<lambda>x. x = BSL) t)) BSL @
       drop (length (takeWhile (\<lambda>x. x = BSL) t)) t \<and>
   (case drop (length (takeWhile (\<lambda>x. x = BSL) t)) t of [] \<Rightarrow> True | y # _ \<Rightarrow> y \<noteq> BSL)"
proof (induction t)
  case Nil
  show ?case by simp
next
  case (Cons x t)
  then show ?case by (cases "x = BSL") auto
qed

lemma tag_len_bs: "tag_len (BSL # t) = None"
  by (cases t) simp_all

lemma escape_re_none:
  assumes "esc_at t = None"
  shows "m escape_re (pre, t, c) = []"
proof -
  let ?k = "length (takeWhile (\<lambda>x. x = BSL) t)"
  let ?r = "drop ?k t"
  from assms have none: "tag_len ?r = None" by (simp add: esc_at_def Let_def)
  from run_split[of t] have t: "t = replicate ?k BSL @ ?r"
    and r: "case ?r of [] \<Rightarrow> True | y # _ \<Rightarrow> y \<noteq> BSL" by blast+
  have "m escape_re (pre, replicate ?k BSL @ ?r, c) =
          m tag2 (replicate ?k BSL @ pre, ?r, (''1'', length pre, length pre + ?k) # c)"
    unfolding escape_re_def tag2_def[symmetric]
    by (rule bs_run) (simp_all add: tag2_none tag_len_bs r)
  also have "\<dots> = []" by (rule tag2_none[OF none])
  finally show ?thesis using t by simp
qed

lemma escape_re_some:
  assumes "esc_at t = Some (k, n)"
  shows "\<exists>zs. m escape_re (pre, t, c) =
           (rev (take (k + n) t) @ pre, drop (k + n) t,
            (''2'', length pre + k, length pre + k + n) # (''1'', length pre, length pre + k) # c) # zs"
proof -
  let ?r = "drop k t"
  from assms have k: "k = length (takeWhile (\<lambda>x. x = BSL) t)" and some: "tag_len ?r = Some n"
    by (auto simp: esc_at_def Let_def)
  from run_split[of t] k have t: "t = replicate k BSL @ ?r"
    and r: "case ?r of [] \<Rightarrow> True | y # _ \<Rightarrow> y \<noteq> BSL" by simp_all
  have 1: "m escape_re (pre, replicate k BSL @ ?r, c) =
          m tag2 (replicate k BSL @ pre, ?r, (''1'', length pre, length pre + k) # c)"
    unfolding escape_re_def tag2_def[symmetric]
    by (rule bs_run) (simp_all add: tag2_none tag_len_bs r)
  from tag2_some[OF some, of "replicate k BSL @ pre" "(''1'', length pre, length pre + k) # c"]
  obtain zs where 2:
    "m tag2 (replicate k BSL @ pre, ?r, (''1'', length pre, length pre + k) # c) =
       (rev (take n ?r) @ replicate k BSL @ pre, drop n ?r,
        (''2'', length (replicate k BSL @ pre), length (replicate k BSL @ pre) + n) #
        (''1'', length pre, length pre + k) # c) # zs"
    by blast
  have tk: "take (k + n) t = replicate k BSL @ take n ?r"
    by (subst t) (simp add: take_add)
  have "m escape_re (pre, t, c) =
          (rev (take n ?r) @ replicate k BSL @ pre, drop n ?r,
           (''2'', length (replicate k BSL @ pre), length (replicate k BSL @ pre) + n) #
           (''1'', length pre, length pre + k) # c) # zs"
    using 1 2 t by simp
  then show ?thesis by (simp add: tk add.commute add.left_commute)
qed

lemma RE_TAGS_unfold:
  "m RE_TAGS (pre, t, c) =
     map (\<lambda>(pre', rest', c'). (pre', rest', (''1'', length pre, length pre') # c'))
       (m (Seq (Named ''2'' (Rep True 0 (Pos [Ch BSL]))) tag3) (pre, t, c))"
  by (simp add: RE_TAGS_def tag3_def cat_def m.simps)

lemma RE_TAGS_none:
  assumes "esc_at t = None"
  shows "m RE_TAGS (pre, t, c) = []"
proof -
  let ?k = "length (takeWhile (\<lambda>x. x = BSL) t)"
  let ?r = "drop ?k t"
  from assms have none: "tag_len ?r = None" by (simp add: esc_at_def Let_def)
  from run_split[of t] have t: "t = replicate ?k BSL @ ?r"
    and r: "case ?r of [] \<Rightarrow> True | y # _ \<Rightarrow> y \<noteq> BSL" by blast+
  have "m (Seq (Named ''2'' (Rep True 0 (Pos [Ch BSL]))) tag3) (pre, replicate ?k BSL @ ?r, c) =
          m tag3 (replicate ?k BSL @ pre, ?r, (''2'', length pre, length pre + ?k) # c)"
    by (rule bs_run) (simp_all add: tag3_none tag_len_bs r)
  also have "\<dots> = []" by (rule tag3_none[OF none])
  finally have "m (Seq (Named ''2'' (Rep True 0 (Pos [Ch BSL]))) tag3) (pre, t, c) = []"
    using t by simp
  then show ?thesis by (simp add: RE_TAGS_unfold)
qed

lemma RE_TAGS_some:
  assumes "esc_at t = Some (k, n)"
  shows "\<exists>zs. m RE_TAGS (pre, t, c) =
           (rev (take (k + n) t) @ pre, drop (k + n) t,
            (''1'', length pre, length pre + k + n) #
            (''3'', length pre + k + 1, length pre + k + n - 1) #
            (''2'', length pre, length pre + k) # c) # zs"
proof -
  let ?r = "drop k t"
  from assms have k: "k = length (takeWhile (\<lambda>x. x = BSL) t)" and some: "tag_len ?r = Some n"
    by (auto simp: esc_at_def Let_def)
  from run_split[of t] k have t: "t = replicate k BSL @ ?r"
    and r: "case ?r of [] \<Rightarrow> True | y # _ \<Rightarrow> y \<noteq> BSL" by simp_all
  have 1: "m (Seq (Named ''2'' (Rep True 0 (Pos [Ch BSL]))) tag3) (pre, replicate k BSL @ ?r, c) =
          m tag3 (replicate k BSL @ pre, ?r, (''2'', length pre, length pre + k) # c)"
    by (rule bs_run) (simp_all add: tag3_none tag_len_bs r)
  from tag3_some[OF some, of "replicate k BSL @ pre" "(''2'', length pre, length pre + k) # c"]
  obtain zs where 2:
    "m tag3 (replicate k BSL @ pre, ?r, (''2'', length pre, length pre + k) # c) =
       (rev (take n ?r) @ replicate k BSL @ pre, drop n ?r,
        (''3'', Suc (length (replicate k BSL @ pre)), length (replicate k BSL @ pre) + n - 1) #
        (''2'', length pre, length pre + k) # c) # zs"
    by blast
  have tk: "take (k + n) t = replicate k BSL @ take n ?r"
    by (subst t) (simp add: take_add)
  have "m (Seq (Named ''2'' (Rep True 0 (Pos [Ch BSL]))) tag3) (pre, t, c) =
          (rev (take n ?r) @ replicate k BSL @ pre, drop n ?r,
           (''3'', Suc (length (replicate k BSL @ pre)), length (replicate k BSL @ pre) + n - 1) #
           (''2'', length pre, length pre + k) # c) # zs"
    using 1 2 t by simp
  moreover from tag_len_bounds[OF some] have "n \<le> length ?r" by simp
  ultimately show ?thesis
    by (simp add: RE_TAGS_unfold tk add.commute add.left_commute)
qed


section \<open>The scanner over the markup\<close>

lemma esc_at_bounds: "esc_at t = Some (k, n) \<Longrightarrow> 3 \<le> n \<and> k + n \<le> length t"
proof -
  assume a: "esc_at t = Some (k, n)"
  then have "tag_len (drop k t) = Some n" by (auto simp: esc_at_def Let_def)
  from tag_len_bounds[OF this] show ?thesis by (cases "k \<le> length t") auto
qed

text \<open>
  What \<^verbatim>\<open>escape\<close>'s substitution makes of a text, and what \<^verbatim>\<open>_parse\<close> yields for it (without
  the positions), both written as a scan from left to right: at a run of backslashes before
  a tag the tag is taken, anywhere else one character. \<open>gap\<close> is the text passed over
  since the last tag, the latest character first.
\<close>

function esc :: "string \<Rightarrow> string" where
  "esc [] = []"
| "esc (x # xs) =
     (case esc_at (x # xs) of
        Some (k, n) \<Rightarrow>
          replicate (2 * k + 1) BSL @ take n (drop k (x # xs)) @ esc (drop (k + n) (x # xs))
      | None \<Rightarrow> x # esc xs)"
  by pat_completeness auto
termination
  by (relation "measure length") (auto dest: esc_at_bounds)

function pchunks :: "string \<Rightarrow> string \<Rightarrow> (string option \<times> tag option) list" where
  "pchunks gap [] = (if gap = [] then [] else [(Some (rev gap), None)])"
| "pchunks gap (x # xs) =
     (case esc_at (x # xs) of
        Some (k, n) \<Rightarrow>
          (if gap = [] then [] else [(Some (rev gap), None)]) @
          (if k div 2 \<noteq> 0 then [(Some (replicate (k div 2) BSL), None)] else []) @
          (if k mod 2 \<noteq> 0 then (Some (take n (drop k (x # xs))), None)
           else (case partition_eq (take (n - 2) (drop (k + 1) (x # xs))) of
                   (tx, equals, params) \<Rightarrow>
                     (None, Some (Tag tx (if equals then Some params else None))))) #
          pchunks [] (drop (k + n) (x # xs))
      | None \<Rightarrow> pchunks (x # gap) xs)"
  by pat_completeness auto
termination
  by (relation "measure (\<lambda>(gap, t). length t)") (auto dest: esc_at_bounds)

declare esc.simps(2) [simp del]
declare pchunks.simps(2) [simp del]

lemma esc_None: "esc_at (x # xs) = None \<Longrightarrow> esc (x # xs) = x # esc xs"
  by (simp add: esc.simps(2))

lemma esc_Some:
  "esc_at t = Some (k, n) \<Longrightarrow>
   esc t = replicate (2 * k + 1) BSL @ take n (drop k t) @ esc (drop (k + n) t)"
  by (cases t) (auto simp: esc.simps(2) esc_at_def)

lemma pchunks_None: "esc_at (x # xs) = None \<Longrightarrow> pchunks gap (x # xs) = pchunks (x # gap) xs"
  by (simp add: pchunks.simps(2))

lemma pchunks_Some:
  "esc_at t = Some (k, n) \<Longrightarrow>
   pchunks gap t =
     (if gap = [] then [] else [(Some (rev gap), None)]) @
     (if k div 2 \<noteq> 0 then [(Some (replicate (k div 2) BSL), None)] else []) @
     (if k mod 2 \<noteq> 0 then (Some (take n (drop k t)), None)
      else (case partition_eq (take (n - 2) (drop (k + 1) t)) of
              (tx, equals, params) \<Rightarrow>
                (None, Some (Tag tx (if equals then Some params else None))))) #
     pchunks [] (drop (k + n) t)"
  by (cases t) (auto simp: pchunks.simps(2) esc_at_def)

lemma finditer_miss_Nil: "m r (pre, [], []) = [] \<Longrightarrow> finditer r adv pre [] = []"
  by (subst finditer.simps) (simp add: first_match_def)

lemma finditer_miss_Cons:
  "m r (pre, x # xs, []) = [] \<Longrightarrow> finditer r adv pre (x # xs) = finditer r False (x # pre) xs"
  by (subst finditer.simps) (simp add: first_match_def)

lemma rep2: "replicate (2 * k + 1) x = replicate k x @ replicate k x @ [x]"
  by (simp add: mult_2 replicate_add replicate_append_same)

lemma esc_at_Nil: "esc_at [] = None"
  by (simp add: esc_at_def)

text \<open>The substitution of \<^verbatim>\<open>escape\<close> is the scan.\<close>

lemma sub_from_esc:
  "S = rev pre0 @ rev gap @ rest \<Longrightarrow>
   sub_from (escape_backslashes S) S (length pre0) (finditer escape_re adv (gap @ pre0) rest) =
     rev gap @ esc rest"
proof (induction "length rest" arbitrary: rest gap pre0 adv rule: less_induct)
  case less
  show ?case
  proof (cases rest)
    case Nil
    have "finditer escape_re adv (gap @ pre0) [] = []"
      by (rule finditer_miss_Nil) (simp add: escape_re_none esc_at_Nil)
    with Nil less.prems show ?thesis by simp
  next
    case (Cons x xs)
    show ?thesis
    proof (cases "esc_at rest")
      case None
      have "finditer escape_re adv (gap @ pre0) (x # xs) =
              finditer escape_re False (x # gap @ pre0) xs"
        by (rule finditer_miss_Cons) (use None Cons in \<open>simp add: escape_re_none\<close>)
      moreover have "sub_from (escape_backslashes S) S (length pre0)
                       (finditer escape_re False ((x # gap) @ pre0) xs) = rev (x # gap) @ esc xs"
        by (rule less.hyps) (use Cons less.prems in simp_all)
      ultimately show ?thesis using None Cons by (simp add: esc_None)
    next
      case (Some kn)
      obtain k n where kn: "kn = (k, n)" by (cases kn)
      with Some have some: "esc_at rest = Some (k, n)" by simp
      from esc_at_bounds[OF some] have n3: "3 \<le> n" and le: "k + n \<le> length rest" by simp_all
      let ?pre = "gap @ pre0"
      let ?lp = "length gap + length pre0"
      let ?pre' = "rev (take (k + n) rest) @ ?pre"
      let ?c = "[(''2'', ?lp + k, ?lp + k + n), (''1'', ?lp, ?lp + k)]"
      from escape_re_some[OF some, of ?pre "[]"] obtain zs where
        mm: "m escape_re (?pre, rest, []) = (?pre', drop (k + n) rest, ?c) # zs"
        by auto
      have hit: "finditer escape_re adv ?pre rest =
                   (length ?pre, length ?pre', ?c) # finditer escape_re False ?pre' (drop (k + n) rest)"
        by (rule finditer_hit[OF mm]) (use n3 le in simp)
      have S': "S = rev ?pre' @ rev [] @ drop (k + n) rest"
        using less.prems by simp
      have ih: "sub_from (escape_backslashes S) S (length ?pre')
                  (finditer escape_re False ([] @ ?pre') (drop (k + n) rest)) =
                rev [] @ esc (drop (k + n) rest)"
        by (rule less.hyps[OF _ S']) (use n3 le in simp)
      have dropS: "drop (length pre0) S = rev gap @ rest" "drop ?lp S = rest"
        using less.prems by simp_all
      have g1: "match_group S ?c ''1'' = take k rest"
        by (simp add: match_group_def dropS)
      have "drop (?lp + k) S = drop k rest"
        using dropS(2) by (metis add.commute drop_drop)
      then have g2: "match_group S ?c ''2'' = take n (drop k rest)"
        by (simp add: match_group_def)
      have tk: "take k rest = replicate k BSL"
        using some run_split[of rest] by (auto simp: esc_at_def Let_def) (metis append_eq_conv_conj length_replicate)
      have "escape_backslashes S ?c = take k rest @ take k rest @ [BSL] @ take n (drop k rest)"
        by (simp only: escape_backslashes_def Let_def g1 g2)
      then have repl: "escape_backslashes S ?c = replicate (2 * k + 1) BSL @ take n (drop k rest)"
        by (simp only: tk rep2) simp
      have lens: "length ?pre' = ?lp + (k + n)" using le by simp
      show ?thesis
        unfolding hit sub_from.simps repl
        using ih dropS(1) by (simp add: esc_Some[OF some] lens)
    qed
  qed
qed


text \<open>What \<^verbatim>\<open>_parse\<close> yields is the scan.\<close>

lemma parse_from_pchunks:
  "S = rev pre0 @ rev gap @ rest \<Longrightarrow>
   map snd (parse_from S (length pre0) (finditer RE_TAGS adv (gap @ pre0) rest)) =
     pchunks gap rest"
proof (induction "length rest" arbitrary: rest gap pre0 adv rule: less_induct)
  case less
  show ?case
  proof (cases rest)
    case Nil
    have "finditer RE_TAGS adv (gap @ pre0) [] = []"
      by (rule finditer_miss_Nil) (simp add: RE_TAGS_none esc_at_Nil)
    with Nil less.prems show ?thesis by simp
  next
    case (Cons x xs)
    show ?thesis
    proof (cases "esc_at rest")
      case None
      have "finditer RE_TAGS adv (gap @ pre0) (x # xs) =
              finditer RE_TAGS False (x # gap @ pre0) xs"
        by (rule finditer_miss_Cons) (use None Cons in \<open>simp add: RE_TAGS_none\<close>)
      moreover have "map snd (parse_from S (length pre0)
                       (finditer RE_TAGS False ((x # gap) @ pre0) xs)) = pchunks (x # gap) xs"
        by (rule less.hyps) (use Cons less.prems in simp_all)
      ultimately show ?thesis using None Cons by (simp add: pchunks_None)
    next
      case (Some kn)
      obtain k n where kn: "kn = (k, n)" by (cases kn)
      with Some have some: "esc_at rest = Some (k, n)" by simp
      from esc_at_bounds[OF some] have n3: "3 \<le> n" and le: "k + n \<le> length rest" by simp_all
      let ?pre = "gap @ pre0"
      let ?lp = "length gap + length pre0"
      let ?pre' = "rev (take (k + n) rest) @ ?pre"
      let ?c = "[(''1'', ?lp, ?lp + k + n), (''3'', ?lp + k + 1, ?lp + k + n - 1),
                 (''2'', ?lp, ?lp + k)]"
      from RE_TAGS_some[OF some, of ?pre "[]"] obtain zs where
        mm: "m RE_TAGS (?pre, rest, []) = (?pre', drop (k + n) rest, ?c) # zs"
        by auto
      have hit: "finditer RE_TAGS adv ?pre rest =
                   (length ?pre, length ?pre', ?c) # finditer RE_TAGS False ?pre' (drop (k + n) rest)"
        by (rule finditer_hit[OF mm]) (use n3 le in simp)
      have S': "S = rev ?pre' @ rev [] @ drop (k + n) rest"
        using less.prems by simp
      have ih: "map snd (parse_from S (length ?pre')
                  (finditer RE_TAGS False ([] @ ?pre') (drop (k + n) rest))) =
                pchunks [] (drop (k + n) rest)"
        by (rule less.hyps[OF _ S']) (use n3 le in simp)
      have dropS: "drop (length pre0) S = rev gap @ rest" "drop ?lp S = rest"
        using less.prems by simp_all
      have g1: "match_group S ?c ''1'' = take (k + n) rest"
        by (simp add: match_group_def dropS)
      have g2: "match_group S ?c ''2'' = take k rest"
        by (simp add: match_group_def dropS)
      have "drop (?lp + k + 1) S = drop (k + 1) rest"
        using dropS(2) by (metis add.assoc add.commute drop_drop)
      moreover have "?lp + k + n - 1 - (?lp + k + 1) = n - 2" by simp
      ultimately have g3: "match_group S ?c ''3'' = take (n - 2) (drop (k + 1) rest)"
        by (simp add: match_group_def)
      have lk: "length (take k rest) = k" using le by simp
      have esc: "drop k (take (k + n) rest) = take n (drop k rest)"
        by (simp add: drop_take)
      have before: "take (?lp - length pre0) (drop (length pre0) S) = rev gap"
        by (simp add: dropS)
      have lens: "length ?pre' = ?lp + (k + n)" using le by simp
      have hit': "finditer RE_TAGS adv ?pre rest =
                    (?lp, ?lp + (k + n), ?c) # finditer RE_TAGS False ?pre' (drop (k + n) rest)"
        using hit lens by simp
      have ih': "map snd (parse_from S (?lp + (k + n))
                   (finditer RE_TAGS False ?pre' (drop (k + n) rest))) =
                 pchunks [] (drop (k + n) rest)"
        using ih lens by (simp add: add.commute)
      have "map snd (parse_from S (length pre0) (finditer RE_TAGS adv ?pre rest)) =
            map snd (parse_from S (length pre0)
              ((?lp, ?lp + (k + n), ?c) # finditer RE_TAGS False ?pre' (drop (k + n) rest)))"
        by (simp only: hit')
      also have "\<dots> =
            (if gap = [] then [] else [(Some (rev gap), None)]) @
            (if k div 2 \<noteq> 0 then [(Some (replicate (k div 2) BSL), None)] else []) @
            (if k mod 2 \<noteq> 0 then (Some (take n (drop k rest)), None)
             else (case partition_eq (take (n - 2) (drop (k + 1) rest)) of
                     (tx, equals, params) \<Rightarrow>
                       (None, Some (Tag tx (if equals then Some params else None))))) #
            map snd (parse_from S (?lp + (k + n))
                       (finditer RE_TAGS False ?pre' (drop (k + n) rest)))"
        unfolding parse_from.simps Let_def g1 g2 g3 lk esc before
        by (simp split: prod.splits)
      also have "\<dots> = pchunks gap rest"
        by (simp only: pchunks_Some[OF some] ih')
      finally show ?thesis .
    qed
  qed
qed

lemma parse_pchunks: "map snd (parse markup) = pchunks [] markup"
  using parse_from_pchunks[of markup "[]" "[]" markup False] by (simp add: parse_def)

lemma re_sub_esc: "re_sub escape_re (escape_backslashes markup) markup = esc markup"
  using sub_from_esc[of markup "[]" "[]" markup False] by (simp add: re_sub_def)


section \<open>Escaped text holds no tag\<close>

lemma takeWhile_bs_run:
  "(case r of [] \<Rightarrow> True | y # _ \<Rightarrow> y \<noteq> BSL) \<Longrightarrow>
   takeWhile (\<lambda>x. x = BSL) (replicate k BSL @ r) = replicate k BSL"
  by (rule takeWhile_run) (auto simp: list_all_iff split: list.splits)

lemma esc_at_run:
  "(case r of [] \<Rightarrow> True | y # _ \<Rightarrow> y \<noteq> BSL) \<Longrightarrow>
   esc_at (replicate k BSL @ r) = map_option (\<lambda>n. (k, n)) (tag_len r)"
  by (simp add: esc_at_def Let_def takeWhile_bs_run)

lemma esc_at_head:
  "x \<noteq> BSL \<Longrightarrow> esc_at (x # w) = map_option (\<lambda>n. (0, n)) (tag_len (x # w))"
  using esc_at_run[of "x # w" 0] by simp

lemma esc_at_decomp:
  assumes "esc_at t = Some (k, n)"
  shows "t = replicate k BSL @ take n (drop k t) @ drop (k + n) t"
    and "tag_len (drop k t) = Some n"
proof -
  from assms have k: "k = length (takeWhile (\<lambda>x. x = BSL) t)"
    and some: "tag_len (drop k t) = Some n"
    by (auto simp: esc_at_def Let_def)
  from run_split[of t] k have "t = replicate k BSL @ drop k t" by simp
  moreover have "drop k t = take n (drop k t) @ drop (k + n) t"
    by (metis add.commute append_take_drop_id drop_drop)
  ultimately show "t = replicate k BSL @ take n (drop k t) @ drop (k + n) t" by simp
  show "tag_len (drop k t) = Some n" by (rule some)
qed

lemma tag_scan_prefix: "tag_scan xs = Some n \<Longrightarrow> tag_scan (take (Suc n) xs @ w) = Some n"
proof (induction xs arbitrary: n)
  case Nil
  then show ?case by simp
next
  case (Cons x xs)
  then show ?case by (auto split: if_splits)
qed

lemma tag_len_prefix:
  assumes "tag_len r = Some n"
  shows "tag_len (take n r @ w) = Some n" and "\<exists>v. take n r = CHR ''['' # v"
proof -
  from assms obtain a b xs where r: "r = a # b # xs"
    by (cases r rule: tag_len.cases) simp_all
  with assms have ab: "a = CHR ''[''" "in_cset tag_start b"
    by (auto split: if_splits)
  with assms r obtain n0 where n0: "tag_scan xs = Some n0" "n = n0 + 3"
    by auto
  have tk: "take n r = a # b # take (Suc n0) xs"
    by (simp add: r n0(2) eval_nat_numeral)
  show "tag_len (take n r @ w) = Some n"
    unfolding tk using ab tag_scan_prefix[OF n0(1), of w] by (simp add: n0(2))
  show "\<exists>v. take n r = CHR ''['' # v"
    using tk ab(1) by simp
qed

lemma esc_at_escaped:
  assumes "esc_at t = Some (k, n)"
  shows "esc_at (replicate (2 * k + 1) BSL @ take n (drop k t) @ w) = Some (2 * k + 1, n)"
proof -
  from esc_at_decomp(2)[OF assms] have some: "tag_len (drop k t) = Some n" .
  from tag_len_prefix(1)[OF some, of w] tag_len_prefix(2)[OF some] obtain v where
    1: "tag_len (take n (drop k t) @ w) = Some n" and 2: "take n (drop k t) = CHR ''['' # v"
    by blast
  have "esc_at (replicate (2 * k + 1) BSL @ (take n (drop k t) @ w)) =
          map_option (\<lambda>n. (2 * k + 1, n)) (tag_len (take n (drop k t) @ w))"
    by (rule esc_at_run) (simp add: 2)
  with 1 show ?thesis by simp
qed

text \<open>The brackets of a text, in order: the scan leaves them as they are.\<close>

definition bk :: "string \<Rightarrow> string" where
  "bk t = filter (\<lambda>ch. ch = CHR ''['' \<or> ch = CHR '']'') t"

lemma bk_append: "bk (u @ v) = bk u @ bk v"
  by (simp add: bk_def)

lemma bk_bs: "bk (replicate k BSL) = []"
  by (simp add: bk_def)

lemma bk_bs_only: "set tr \<subseteq> {BSL} \<Longrightarrow> bk tr = []"
  by (auto simp: bk_def filter_empty_conv)

lemma tag_scan_bk: "(tag_scan t = None) = (case bk t of [] \<Rightarrow> True | b # _ \<Rightarrow> b = CHR ''['')"
  by (induction t) (auto simp: bk_def)

lemma bk_esc: "bk (esc s) = bk s"
proof (induction "length s" arbitrary: s rule: less_induct)
  case less
  show ?case
  proof (cases s)
    case Nil
    then show ?thesis by simp
  next
    case (Cons x xs)
    show ?thesis
    proof (cases "esc_at s")
      case None
      with Cons have "esc s = x # esc xs" by (simp add: esc_None)
      moreover have "bk (esc xs) = bk xs" by (rule less.hyps) (simp add: Cons)
      ultimately show ?thesis using Cons by (simp add: bk_def)
    next
      case (Some kn)
      obtain k n where "kn = (k, n)" by (cases kn)
      with Some have some: "esc_at s = Some (k, n)" by simp
      from esc_at_bounds[OF some] have "3 \<le> n" "k + n \<le> length s" by simp_all
      then have "bk (esc (drop (k + n) s)) = bk (drop (k + n) s)"
        by (intro less.hyps) simp
      then have "bk (esc s) = bk (take n (drop k s)) @ bk (drop (k + n) s)"
        by (simp only: esc_Some[OF some] bk_append bk_bs append_Nil)
      moreover have "bk s = bk (take n (drop k s)) @ bk (drop (k + n) s)"
        by (subst esc_at_decomp(1)[OF some]) (simp only: bk_append bk_bs append_Nil)
      ultimately show ?thesis by simp
    qed
  qed
qed

lemma esc_at_bs_only: "set t \<subseteq> {BSL} \<Longrightarrow> esc_at t = None"
proof -
  assume "set t \<subseteq> {BSL}"
  then have "replicate (length t) BSL = t"
    by (intro replicate_length_same) auto
  then have "esc_at t = esc_at (replicate (length t) BSL @ [])" by simp
  also have "\<dots> = map_option (\<lambda>n. (length t, n)) (tag_len [])"
    by (rule esc_at_run) simp
  finally show ?thesis by simp
qed

lemma esc_run:
  "tag_len r = None \<Longrightarrow> (case r of [] \<Rightarrow> True | y # _ \<Rightarrow> y \<noteq> BSL) \<Longrightarrow>
   esc (replicate j BSL @ r) = replicate j BSL @ esc r"
proof (induction j)
  case 0
  show ?case by simp
next
  case (Suc j)
  have "esc_at (replicate (Suc j) BSL @ r) = map_option (\<lambda>n. (Suc j, n)) (tag_len r)"
    by (rule esc_at_run) (rule Suc.prems(2))
  with Suc.prems(1) have "esc_at (BSL # replicate j BSL @ r) = None" by simp
  from esc_None[OF this] Suc.IH[OF Suc.prems] show ?case by simp
qed

lemma tag_len_not_open: "y \<noteq> CHR ''['' \<Longrightarrow> tag_len (y # w) = None"
  by (cases w) simp_all

lemma esc_head: "\<exists>h w. esc (x # xs) = h # w \<and> (h = x \<or> h = BSL)"
proof (cases "esc_at (x # xs)")
  case None
  from esc_None[OF this] show ?thesis by blast
next
  case (Some kn)
  obtain k n where "kn = (k, n)" by (cases kn)
  with Some have "esc_at (x # xs) = Some (k, n)" by simp
  from esc_Some[OF this]
  have "esc (x # xs) =
          BSL # (replicate (2 * k) BSL @ take n (drop k (x # xs)) @ esc (drop (k + n) (x # xs)))"
    by simp
  then show ?thesis by blast
qed

lemma tag_len_esc:
  assumes "tag_len (y # ys) = None" and tr: "set tr \<subseteq> {BSL}"
  shows "tag_len (y # esc ys @ tr) = None"
proof (cases "y = CHR ''[''")
  case False
  then show ?thesis by (rule tag_len_not_open)
next
  case True
  show ?thesis
  proof (cases ys)
    case Nil
    then show ?thesis using tr True by (cases tr) (auto simp: tag_start_def between_def code_def)
  next
    case (Cons b zs)
    show ?thesis
    proof (cases "in_cset tag_start b")
      case False
      from esc_head[of b zs] obtain h w where "esc (b # zs) = h # w" "h = b \<or> h = BSL"
        by blast
      moreover have "\<not> in_cset tag_start BSL"
        by (simp add: tag_start_def between_def code_def)
      ultimately show ?thesis using False Cons by auto
    next
      case ts: True
      with assms(1) True Cons have none: "tag_scan zs = None" by simp
      from tag_start_chars[OF ts] have b: "b \<noteq> BSL" "b \<noteq> CHR ''[''" by simp_all
      have "esc_at (b # zs) = None"
        using b by (simp add: esc_at_head tag_len_not_open)
      then have e: "esc (b # zs) = b # esc zs" by (rule esc_None)
      have "bk (esc zs @ tr) = bk zs"
        by (simp add: bk_append bk_esc bk_bs_only[OF tr])
      with none have "tag_scan (esc zs @ tr) = None"
        by (simp add: tag_scan_bk)
      then show ?thesis using True ts Cons e by simp
    qed
  qed
qed

lemma esc_at_miss:
  assumes none: "esc_at (x # xs) = None" and tr: "set tr \<subseteq> {BSL}"
  shows "esc_at (x # esc xs @ tr) = None"
proof (cases "x = BSL")
  case False
  with none have "tag_len (x # xs) = None" by (simp add: esc_at_head)
  from tag_len_esc[OF this tr] False show ?thesis by (simp add: esc_at_head)
next
  case True
  let ?k = "length (takeWhile (\<lambda>x. x = BSL) (x # xs))"
  let ?r = "drop ?k (x # xs)"
  from run_split[of "x # xs"] have t: "x # xs = replicate ?k BSL @ ?r"
    and r: "case ?r of [] \<Rightarrow> True | y # _ \<Rightarrow> y \<noteq> BSL" by blast+
  from none have tl: "tag_len ?r = None" by (simp add: esc_at_def Let_def)
  from True obtain j where j: "?k = Suc j" by simp
  with t have xs: "xs = replicate j BSL @ ?r" by simp
  have e: "esc xs = replicate j BSL @ esc ?r"
    by (subst xs) (rule esc_run[OF tl r])
  show ?thesis
  proof (cases ?r)
    case Nil
    with e True tr have "set (x # esc xs @ tr) \<subseteq> {BSL}" by auto
    then show ?thesis by (rule esc_at_bs_only)
  next
    case (Cons y ys)
    with r have y: "y \<noteq> BSL" by simp
    from tl Cons have tly: "tag_len (y # ys) = None" by simp
    with y have "esc_at (y # ys) = None" by (simp add: esc_at_head)
    then have "esc (y # ys) = y # esc ys" by (rule esc_None)
    with e Cons True j have "x # esc xs @ tr = replicate (Suc j) BSL @ (y # esc ys @ tr)"
      by simp
    moreover have "esc_at (replicate (Suc j) BSL @ (y # esc ys @ tr)) =
                     map_option (\<lambda>n. (Suc j, n)) (tag_len (y # esc ys @ tr))"
      by (rule esc_at_run) (simp add: y)
    ultimately show ?thesis using tag_len_esc[OF tly tr] by simp
  qed
qed

lemma pchunks_bs:
  "set t \<subseteq> {BSL} \<Longrightarrow>
   pchunks gap t = (if rev gap @ t = [] then [] else [(Some (rev gap @ t), None)])"
proof (induction t arbitrary: gap)
  case Nil
  show ?case by simp
next
  case (Cons x t)
  from Cons.prems have "esc_at (x # t) = None" by (rule esc_at_bs_only)
  from pchunks_None[OF this] Cons.IH[of "x # gap"] Cons.prems show ?case by simp
qed

text \<open>
  What \<^verbatim>\<open>_parse\<close> yields for an escaped text, with or without a backslash added at its end:
  pieces of text and no tag, and the pieces put together are the text that was escaped.
\<close>

lemma pchunks_esc:
  "set tr \<subseteq> {BSL} \<Longrightarrow>
   \<exists>cs. pchunks gap (esc s @ tr) = map (\<lambda>ch. (Some ch, None)) cs \<and>
        concat cs = rev gap @ s @ tr"
proof (induction "length s" arbitrary: s gap rule: less_induct)
  case less
  note tr = less.prems
  show ?case
  proof (cases s)
    case Nil
    show ?thesis
    proof (cases "rev gap @ tr = []")
      case True
      with Nil tr show ?thesis by (simp add: pchunks_bs)
    next
      case False
      with Nil tr have "pchunks gap (esc s @ tr) = map (\<lambda>ch. (Some ch, None)) [rev gap @ tr]"
        by (simp add: pchunks_bs)
      moreover have "concat [rev gap @ tr] = rev gap @ s @ tr" using Nil by simp
      ultimately show ?thesis by blast
    qed
  next
    case (Cons x xs)
    show ?thesis
    proof (cases "esc_at s")
      case None
      with Cons have e: "esc s = x # esc xs" by (simp add: esc_None)
      from None Cons have "esc_at (x # esc xs @ tr) = None"
        by (intro esc_at_miss tr) simp
      then have "pchunks gap (x # esc xs @ tr) = pchunks (x # gap) (esc xs @ tr)"
        by (rule pchunks_None)
      moreover from less.hyps[of xs "x # gap", OF _ tr] Cons obtain cs where
        "pchunks (x # gap) (esc xs @ tr) = map (\<lambda>ch. (Some ch, None)) cs"
        "concat cs = rev (x # gap) @ xs @ tr"
        by auto
      ultimately show ?thesis using e Cons by auto
    next
      case (Some kn)
      obtain k n where "kn = (k, n)" by (cases kn)
      with Some have some: "esc_at s = Some (k, n)" by simp
      from esc_at_bounds[OF some] have n3: "3 \<le> n" and le: "k + n \<le> length s" by simp_all
      let ?tag = "take n (drop k s)"
      let ?rest = "drop (k + n) s"
      let ?w = "esc ?rest @ tr"
      let ?e = "replicate (2 * k + 1) BSL @ ?tag @ ?w"
      have e: "esc s @ tr = ?e" by (simp add: esc_Some[OF some])
      have at: "esc_at ?e = Some (2 * k + 1, n)" by (rule esc_at_escaped[OF some])
      have ltag: "length ?tag = n" using le by simp
      have d1: "take n (drop (2 * k + 1) ?e) = ?tag"
        using ltag by (simp del: replicate_Suc replicate.simps)
      have d2: "drop (2 * k + 1 + n) ?e = ?w"
        using ltag by (simp del: replicate_Suc replicate.simps)
      have lt: "length ?rest < length s" using n3 le by simp
      from less.hyps[OF lt tr, of "[]"] obtain cs where
        cs: "pchunks [] ?w = map (\<lambda>ch. (Some ch, None)) cs" "concat cs = ?rest @ tr"
        by auto
      let ?cs = "(if gap = [] then [] else [rev gap]) @
                 (if k \<noteq> 0 then [replicate k BSL] else []) @ ?tag # cs"
      have "pchunks gap ?e = map (\<lambda>ch. (Some ch, None)) ?cs"
        by (simp only: pchunks_Some[OF at] d1 d2 cs(1)) simp
      moreover have "concat ?cs = rev gap @ replicate k BSL @ ?tag @ ?rest @ tr"
        using cs(2) by simp
      moreover have "s = replicate k BSL @ ?tag @ ?rest"
        by (rule esc_at_decomp(1)[OF some])
      ultimately have "pchunks gap (esc s @ tr) = map (\<lambda>ch. (Some ch, None)) ?cs \<and>
                       concat ?cs = rev gap @ s @ tr"
        using e by (metis append.assoc)
      then show ?thesis by blast
    qed
  qed
qed

section \<open>Escaping and rendering\<close>

lemma endswith_iff: "endswith s sfx = (\<exists>u. s = u @ sfx)"
proof
  assume "endswith s sfx"
  then have "take (length s - length sfx) s @ sfx = s"
    by (simp add: endswith_def) (metis append_take_drop_id)
  then have "s = take (length s - length sfx) s @ sfx" by simp
  then show "\<exists>u. s = u @ sfx" ..
next
  assume "\<exists>u. s = u @ sfx"
  then show "endswith s sfx" by (auto simp: endswith_def)
qed

text \<open>The last two characters of a text (all of it when it is shorter) survive the scan.\<close>

definition last2 :: "string \<Rightarrow> string" where
  "last2 s = drop (length s - 2) s"

lemma last2_append: "2 \<le> length v \<Longrightarrow> last2 (u @ v) = last2 v"
  by (simp add: last2_def)

lemma length_last2: "length (last2 s) = min 2 (length s)"
  by (simp add: last2_def)

lemma endswith_last2: "length sfx \<le> 2 \<Longrightarrow> endswith s sfx = endswith (last2 s) sfx"
proof -
  assume l: "length sfx \<le> 2"
  have s: "s = take (length s - 2) s @ last2 s" by (simp add: last2_def)
  show ?thesis
  proof
    assume "endswith s sfx"
    then obtain u where u: "s = u @ sfx" by (auto simp: endswith_iff)
    have "last2 (u @ sfx) = drop (length u + length sfx - 2) u @ sfx"
      using l by (simp add: last2_def)
    then show "endswith (last2 s) sfx" unfolding endswith_iff u by blast
  next
    assume "endswith (last2 s) sfx"
    then obtain u where "last2 s = u @ sfx" by (auto simp: endswith_iff)
    with s have "s = (take (length s - 2) s @ u) @ sfx" by simp
    then show "endswith s sfx" unfolding endswith_iff by blast
  qed
qed

lemma esc_short: "length t < 3 \<Longrightarrow> esc t = t"
proof (induction t)
  case Nil
  show ?case by simp
next
  case (Cons x t)
  have "esc_at (x # t) = None"
  proof (cases "esc_at (x # t)")
    case (Some kn)
    obtain k n where "kn = (k, n)" by (cases kn)
    with Some esc_at_bounds[of "x # t" k n] Cons.prems show ?thesis by simp
  qed simp
  from esc_None[OF this] Cons show ?case by simp
qed

lemma last2_esc: "last2 (esc s) = last2 s"
proof (induction "length s" arbitrary: s rule: less_induct)
  case less
  show ?case
  proof (cases "length s < 3")
    case True
    then show ?thesis by (simp add: esc_short)
  next
    case long: False
    then obtain x xs where Cons: "s = x # xs" by (cases s) auto
    show ?thesis
    proof (cases "esc_at s")
      case None
      with Cons have e: "esc s = x # esc xs" by (simp add: esc_None)
      have ih: "last2 (esc xs) = last2 xs" by (rule less.hyps) (simp add: Cons)
      from long Cons have l2: "2 \<le> length xs" by simp
      with arg_cong[OF ih, of length] have "2 \<le> length (esc xs)"
        by (simp add: length_last2)
      then have "last2 ([x] @ esc xs) = last2 (esc xs)" by (rule last2_append)
      moreover from l2 have "last2 ([x] @ xs) = last2 xs" by (rule last2_append)
      ultimately show ?thesis using e ih Cons by simp
    next
      case (Some kn)
      obtain k n where "kn = (k, n)" by (cases kn)
      with Some have some: "esc_at s = Some (k, n)" by simp
      from esc_at_bounds[OF some] have n3: "3 \<le> n" and le: "k + n \<le> length s" by simp_all
      let ?tag = "take n (drop k s)"
      let ?rest = "drop (k + n) s"
      have ltag: "length ?tag = n" using le by simp
      have e: "esc s = replicate (2 * k + 1) BSL @ (?tag @ esc ?rest)"
        by (simp add: esc_Some[OF some])
      have s: "s = replicate k BSL @ (?tag @ ?rest)"
        using esc_at_decomp(1)[OF some] by simp
      have ih: "last2 (esc ?rest) = last2 ?rest"
        by (rule less.hyps) (use n3 le in simp)
      have 1: "last2 (esc s) = last2 (?tag @ esc ?rest)"
        by (subst e) (rule last2_append, use ltag n3 in simp)
      have 2: "last2 s = last2 (?tag @ ?rest)"
        by (subst s) (rule last2_append, use ltag n3 in simp)
      show ?thesis
      proof (cases "2 \<le> length ?rest")
        case True
        with arg_cong[OF ih, of length] have "2 \<le> length (esc ?rest)"
          by (simp add: length_last2)
        then have "last2 (?tag @ esc ?rest) = last2 (esc ?rest)" by (rule last2_append)
        moreover from True have "last2 (?tag @ ?rest) = last2 ?rest" by (rule last2_append)
        ultimately show ?thesis using 1 2 ih by simp
      next
        case False
        then have "esc ?rest = ?rest" by (intro esc_short) simp
        with 1 2 show ?thesis by simp
      qed
    qed
  qed
qed

lemma endswith_esc: "length sfx \<le> 2 \<Longrightarrow> endswith (esc s) sfx = endswith s sfx"
  by (simp add: endswith_last2[of sfx "esc s"] endswith_last2[of sfx s] last2_esc)

text \<open>\<^verbatim>\<open>escape\<close> is the scan, with a backslash added to a text that ends in a single one.\<close>

lemma escape_esc:
  "escape s = esc s @ (if endswith s [BSL] \<and> \<not> endswith s [BSL, BSL] then [BSL] else [])"
  by (simp add: escape_def Let_def re_sub_esc endswith_esc)

lemma tag_len_open: "tag_len r = Some n \<Longrightarrow> CHR ''['' \<in> set r"
  by (cases r rule: tag_len.cases) (auto split: if_splits)

lemma esc_at_no_open: "CHR ''['' \<notin> set t \<Longrightarrow> esc_at t = None"
proof (cases "esc_at t")
  case (Some kn)
  assume no: "CHR ''['' \<notin> set t"
  obtain k n where "kn = (k, n)" by (cases kn)
  with Some have "tag_len (drop k t) = Some n" by (auto simp: esc_at_def Let_def)
  from tag_len_open[OF this] have "CHR ''['' \<in> set t" by (rule in_set_dropD)
  with no show ?thesis by simp
qed simp

lemma esc_no_open: "CHR ''['' \<notin> set s \<Longrightarrow> esc s = s"
proof (induction s)
  case Nil
  show ?case by simp
next
  case (Cons x s)
  from esc_at_no_open[OF Cons.prems] have "esc (x # s) = x # esc s" by (rule esc_None)
  with Cons show ?case by simp
qed

lemma open_in_bk: "(CHR ''['' \<in> set t) = (CHR ''['' \<in> set (bk t))"
  by (auto simp: bk_def)

lemma open_in_esc: "(CHR ''['' \<in> set (esc s)) = (CHR ''['' \<in> set s)"
  by (simp add: open_in_bk[of "esc s"] open_in_bk[of s] bk_esc)

lemma replace_open_id: "CHR ''['' \<notin> set s \<Longrightarrow> replace_open s = s"
  by (induction s rule: replace_open.induct) auto

lemma replace_open_no_bs: "BSL \<notin> set s \<Longrightarrow> replace_open s = s"
  by (induction s rule: replace_open.induct) auto

lemma render_loop_plain:
  "map snd items = map (\<lambda>ch. (Some ch, None)) cs \<Longrightarrow>
   render_loop R items tx style_stack sp =
     Inr (tx @ concat (map (append_plain R) cs), style_stack, sp)"
proof (induction items arbitrary: cs tx)
  case Nil
  then show ?case by simp
next
  case (Cons item items)
  from Cons.prems obtain ch cs' where cs: "cs = ch # cs'" "snd item = (Some ch, None)"
    "map snd items = map (\<lambda>ch. (Some ch, None)) cs'"
    by (cases cs) auto
  obtain pos where item: "item = (pos, Some ch, None)"
    using cs(2) by (cases item) auto
  from Cons.IH[OF cs(3)] show ?case by (simp add: item cs(1))
qed

text \<open>
  Rendering an escaped text raises nothing and makes a text without a span: the pieces
  \<^verbatim>\<open>_parse\<close> yields are plain text, and put together they are the text that was escaped
  (and the backslash \<^verbatim>\<open>escape\<close> adds to a text that ends in a single one).
\<close>

lemma render_escape:
  "\<exists>cs. concat cs = s @ (if endswith s [BSL] \<and> \<not> endswith s [BSL, BSL] then [BSL] else []) \<and>
        render R (escape s) = Inr \<lparr>plain = concat (map (append_plain R) cs), spans = []\<rparr>"
proof -
  let ?tr = "if endswith s [BSL] \<and> \<not> endswith s [BSL, BSL] then [BSL] else []"
  have tr: "set ?tr \<subseteq> {BSL}" by auto
  have e: "escape s = esc s @ ?tr" by (rule escape_esc)
  show ?thesis
  proof (cases "CHR ''['' \<in> set (escape s)")
    case True
    from pchunks_esc[OF tr, of "[]" s] obtain cs where
      cs: "pchunks [] (esc s @ ?tr) = map (\<lambda>ch. (Some ch, None)) cs" "concat cs = s @ ?tr"
      by auto
    have "map snd (parse (escape s)) = map (\<lambda>ch. (Some ch, None)) cs"
      by (simp only: parse_pchunks e cs(1))
    from render_loop_plain[OF this, of R "[]" "[]" "[]"] True
    have "render R (escape s) = Inr \<lparr>plain = concat (map (append_plain R) cs), spans = []\<rparr>"
      by (simp add: render_def unclosed_spans_def)
    with cs(2) show ?thesis by blast
  next
    case False
    then have no: "CHR ''['' \<notin> set s"
      using e open_in_esc[of s] by auto
    from False have "render R (escape s) =
        Inr \<lparr>plain = concat (map (append_plain R) [escape s]), spans = []\<rparr>"
      by (simp add: render_def append_plain_def replace_open_id)
    moreover have "concat [escape s] = s @ ?tr"
      using e esc_no_open[OF no] by simp
    ultimately show ?thesis by blast
  qed
qed

lemma render_str_escape:
  "\<exists>cs. concat cs = s @ (if endswith s [BSL] \<and> \<not> endswith s [BSL, BSL] then [BSL] else []) \<and>
        render_str R (escape s) = Inr (highlighter (concat (map (append_plain R) cs)))"
proof -
  from render_escape[of s R] obtain cs where
    cs: "concat cs = s @ (if endswith s [BSL] \<and> \<not> endswith s [BSL, BSL] then [BSL] else [])"
    and r: "render R (escape s) = Inr \<lparr>plain = concat (map (append_plain R) cs), spans = []\<rparr>"
    by blast
  from r have "render_str R (escape s) = Inr (highlighter (concat (map (append_plain R) cs)))"
    by (simp add: render_str_def Let_def)
  with cs show ?thesis by blast
qed

text \<open>
  A text without a backslash, a colon or a control code, given to a rich that leaves text
  without a colon alone (emoji codes stand between colons): its pieces are appended as
  they are.
\<close>

lemma append_plain_id:
  assumes "BSL \<notin> set ch" and "CHR '':'' \<notin> set ch" and "strip_control_codes ch = ch"
    and "\<forall>x. CHR '':'' \<notin> set x \<longrightarrow> emoji_replace R x = x"
  shows "append_plain R ch = ch"
  using assms by (simp add: append_plain_def replace_open_no_bs)

lemma strip_piece:
  assumes "strip_control_codes s = s" and "set ch \<subseteq> set s"
  shows "strip_control_codes ch = ch"
proof -
  from assms(1) have "\<forall>x\<in>set s. code x \<notin> {7, 8, 11, 12, 13}"
    unfolding strip_control_codes_def by (simp only: filter_id_conv)
  with assms(2) have "\<forall>x\<in>set ch. code x \<notin> {7, 8, 11, 12, 13}" by blast
  then show ?thesis unfolding strip_control_codes_def by (simp only: filter_id_conv)
qed

lemma pieces_as_they_are:
  assumes "concat cs = s" and "BSL \<notin> set s" and "CHR '':'' \<notin> set s"
    and "strip_control_codes s = s"
    and "\<forall>x. CHR '':'' \<notin> set x \<longrightarrow> emoji_replace R x = x"
  shows "concat (map (append_plain R) cs) = s"
proof -
  have "map (append_plain R) cs = cs"
  proof (rule map_idI)
    fix ch assume "ch \<in> set cs"
    with assms(1) have sub: "set ch \<subseteq> set s" by auto
    show "append_plain R ch = ch"
      by (rule append_plain_id) (use sub assms(2,3,5) strip_piece[OF assms(4) sub] in auto)
  qed
  with assms(1) show ?thesis by simp
qed

text \<open>
  What the console makes of an argument of \<open>print\<close>, for the argument \<open>v\<close> and the text
  \<open>t\<close> the console ends with.
\<close>

definition printed_as :: "rich \<Rightarrow> pyval \<Rightarrow> pyval \<Rightarrow> Text \<Rightarrow> bool" where
  "printed_as R v given t =
     (case v of
        PStr s \<Rightarrow>
          given = PStr (escape s) \<and>
          (\<exists>cs. concat cs =
                  s @ (if endswith s [BSL] \<and> \<not> endswith s [BSL, BSL] then [BSL] else []) \<and>
                t = highlighter (concat (map (append_plain R) cs))) \<and>
          (BSL \<notin> set s \<and> CHR '':'' \<notin> set s \<and> strip_control_codes s = s \<and>
           (\<forall>x. CHR '':'' \<notin> set x \<longrightarrow> emoji_replace R x = x) \<longrightarrow>
           t = highlighter s)
      | _ \<Rightarrow> given = v \<and> collect_one R v = Inr t)"

lemma printed_as_one:
  assumes "\<exists>s. py_str v = Inr s"
  shows "\<exists>t. collect_one R (case v of PStr s \<Rightarrow> PStr (escape s) | _ \<Rightarrow> v) = Inr t \<and>
             printed_as R v (case v of PStr s \<Rightarrow> PStr (escape s) | _ \<Rightarrow> v) t"
proof (cases v)
  case (PStr s)
  let ?tr = "if endswith s [BSL] \<and> \<not> endswith s [BSL, BSL] then [BSL] else []"
  from render_str_escape[of s R] obtain cs where
    cs: "concat cs = s @ ?tr"
    and r: "render_str R (escape s) = Inr (highlighter (concat (map (append_plain R) cs)))"
    by blast
  have lit: "concat (map (append_plain R) cs) = s"
    if "BSL \<notin> set s \<and> CHR '':'' \<notin> set s \<and> strip_control_codes s = s \<and>
        (\<forall>x. CHR '':'' \<notin> set x \<longrightarrow> emoji_replace R x = x)"
  proof -
    from that have "\<not> endswith s [BSL]" by (auto simp: endswith_iff)
    with cs have "concat cs = s" by simp
    with that show ?thesis by (intro pieces_as_they_are) auto
  qed
  show ?thesis
    unfolding PStr printed_as_def using cs r lit by auto
qed (use assms in \<open>auto simp: printed_as_def\<close>)

lemma printed_as_all:
  assumes "\<forall>v\<in>set content. \<exists>s. py_str v = Inr s"
  shows "\<exists>ts. collect_renderables R (to_print content) = Inr ts \<and>
              list_all2 (\<lambda>(v, given) t. printed_as R v given t) (zip content (to_print content)) ts"
  using assms
proof (induction content)
  case Nil
  show ?case by (simp add: to_print_def)
next
  case (Cons v content)
  from Cons.prems have v: "\<exists>s. py_str v = Inr s" by simp
  from printed_as_one[OF v, of R] obtain t where
    t: "collect_one R (case v of PStr s \<Rightarrow> PStr (escape s) | _ \<Rightarrow> v) = Inr t"
       "printed_as R v (case v of PStr s \<Rightarrow> PStr (escape s) | _ \<Rightarrow> v) t"
    by blast
  from Cons.IH Cons.prems obtain ts where
    ts: "collect_renderables R (to_print content) = Inr ts"
        "list_all2 (\<lambda>(v, given) t. printed_as R v given t) (zip content (to_print content)) ts"
    by auto
  have "collect_renderables R (to_print (v # content)) = Inr (t # ts)"
    using t(1) ts(1) by (simp add: to_print_def)
  moreover have "list_all2 (\<lambda>(v, given) t. printed_as R v given t)
                   (zip (v # content) (to_print (v # content))) (t # ts)"
    using t(2) ts(2) by (simp add: to_print_def)
  ultimately show ?case by blast
qed

text \<open>
  C7. Called with arguments none of which has a \<^verbatim>\<open>__repr__\<close> that raises, \<open>print\<close> returns
  and has the console print once, with the indentation hook in force and the hooks
  afterwards as they were before. The console is handed the escaped text of every \<^verbatim>\<open>str\<close>
  argument and every other argument as it is. For a \<^verbatim>\<open>str\<close> argument the markup renderer
  raises nothing and finds no tag: the text the console ends with is made of pieces that,
  put together, are the argument (with a second backslash after a single backslash at the
  end), each piece as the renderer appends plain text, and its only spans are the
  highlighter's. When the argument has no backslash, no colon and no control code (and
  rich replaces emoji codes only between colons), that text is the argument itself, tags
  such as \<^verbatim>\<open>[bold]\<close> included. For any other argument the text is the one the console makes
  of the argument itself.
\<close>

theorem print_escapes_strings:
  assumes "\<forall>v\<in>set content. \<exists>s. py_str v = Inr s"
  shows "\<exists>ts. print R content indent show_guideline sep endstr c =
                (Inr (),
                 c\<lparr>shown := shown c @
                      [\<lparr>objects = to_print content, texts = ts, sep_str = sep, end_str = endstr,
                        style = None,
                        hooks = render_hooks c @
                                [IndentHook \<lparr>indent_size = indent,
                                             indent_guides = show_guideline\<rparr>]\<rparr>]\<rparr>) \<and>
              length (to_print content) = length content \<and> length ts = length content \<and>
              (\<forall>i<length content.
                 case content ! i of
                   PStr s \<Rightarrow>
                     to_print content ! i = PStr (escape s) \<and>
                     (\<exists>cs. concat cs =
                             s @ (if endswith s [BSL] \<and> \<not> endswith s [BSL, BSL] then [BSL]
                                  else []) \<and>
                           ts ! i = highlighter (concat (map (append_plain R) cs))) \<and>
                     (BSL \<notin> set s \<and> CHR '':'' \<notin> set s \<and> strip_control_codes s = s \<and>
                      (\<forall>x. CHR '':'' \<notin> set x \<longrightarrow> emoji_replace R x = x) \<longrightarrow>
                      ts ! i = highlighter s)
                 | v \<Rightarrow> to_print content ! i = v \<and> collect_one R v = Inr (ts ! i))"
proof -
  from printed_as_all[OF assms, of R] obtain ts where
    ts: "collect_renderables R (to_print content) = Inr ts"
    and all: "list_all2 (\<lambda>(v, given) t. printed_as R v given t) (zip content (to_print content)) ts"
    by blast
  have len: "length (to_print content) = length content" by (simp add: to_print_def)
  from all len have lts: "length ts = length content"
    by (auto dest: list_all2_lengthD)
  have run: "print R content indent show_guideline sep endstr c =
                (Inr (),
                 c\<lparr>shown := shown c @
                      [\<lparr>objects = to_print content, texts = ts, sep_str = sep, end_str = endstr,
                        style = None,
                        hooks = render_hooks c @
                                [IndentHook \<lparr>indent_size = indent,
                                             indent_guides = show_guideline\<rparr>]\<rparr>]\<rparr>)"
    by (simp add: print_def Let_def console_print_def ts push_render_hook_def
        pop_render_hook_def)
  have each: "case content ! i of
                   PStr s \<Rightarrow>
                     to_print content ! i = PStr (escape s) \<and>
                     (\<exists>cs. concat cs =
                             s @ (if endswith s [BSL] \<and> \<not> endswith s [BSL, BSL] then [BSL]
                                  else []) \<and>
                           ts ! i = highlighter (concat (map (append_plain R) cs))) \<and>
                     (BSL \<notin> set s \<and> CHR '':'' \<notin> set s \<and> strip_control_codes s = s \<and>
                      (\<forall>x. CHR '':'' \<notin> set x \<longrightarrow> emoji_replace R x = x) \<longrightarrow>
                      ts ! i = highlighter s)
                 | v \<Rightarrow> to_print content ! i = v \<and> collect_one R v = Inr (ts ! i)"
    if i: "i < length content" for i
  proof -
    from all i len have "printed_as R (content ! i) (to_print content ! i) (ts ! i)"
      by (auto simp: list_all2_conv_all_nth)
    then show ?thesis
      unfolding printed_as_def by (cases "content ! i") simp_all
  qed
  from run len lts each show ?thesis by blast
qed

theorem print_escapes_strings_witness:
  "\<exists>ts. print RICH0 [PStr ''[bold]hi'', PInt 3] 4 True '' '' [CHR 0x0A] CONSOLE0 =
          (Inr (),
           CONSOLE0\<lparr>shown :=
             [\<lparr>objects = [PStr (BSL # ''[bold]hi''), PInt 3], texts = ts, sep_str = '' '',
               end_str = [CHR 0x0A], style = None,
               hooks = [IndentHook \<lparr>indent_size = 4, indent_guides = True\<rparr>]\<rparr>]\<rparr>) \<and>
        ts ! 0 = highlighter ''[bold]hi'' \<and> Inr (ts ! 1) = collect_one RICH0 (PInt 3)"
proof -
  have ok: "\<forall>v\<in>set [PStr ''[bold]hi'', PInt 3]. \<exists>s. py_str v = Inr s"
    by simp
  have given: "to_print [PStr ''[bold]hi'', PInt 3] = [PStr (BSL # ''[bold]hi''), PInt 3]"
    by code_simp
  have plain: "BSL \<notin> set ''[bold]hi'' \<and> CHR '':'' \<notin> set ''[bold]hi'' \<and>
               strip_control_codes ''[bold]hi'' = ''[bold]hi'' \<and>
               (\<forall>x. CHR '':'' \<notin> set x \<longrightarrow> emoji_replace RICH0 x = x)"
    by (simp add: strip_control_codes_def code_def RICH0_def)
  from print_escapes_strings[OF ok, of RICH0 4 True "'' ''" "[CHR 0x0A]" CONSOLE0]
  obtain ts where
    run: "print RICH0 [PStr ''[bold]hi'', PInt 3] 4 True '' '' [CHR 0x0A] CONSOLE0 =
            (Inr (),
             CONSOLE0\<lparr>shown := shown CONSOLE0 @
               [\<lparr>objects = to_print [PStr ''[bold]hi'', PInt 3], texts = ts, sep_str = '' '',
                 end_str = [CHR 0x0A], style = None,
                 hooks = render_hooks CONSOLE0 @
                         [IndentHook \<lparr>indent_size = 4, indent_guides = True\<rparr>]\<rparr>]\<rparr>)"
    and each: "\<forall>i<length [PStr ''[bold]hi'', PInt 3].
                 case [PStr ''[bold]hi'', PInt 3] ! i of
                   PStr s \<Rightarrow>
                     to_print [PStr ''[bold]hi'', PInt 3] ! i = PStr (escape s) \<and>
                     (\<exists>cs. concat cs =
                             s @ (if endswith s [BSL] \<and> \<not> endswith s [BSL, BSL] then [BSL]
                                  else []) \<and>
                           ts ! i = highlighter (concat (map (append_plain RICH0) cs))) \<and>
                     (BSL \<notin> set s \<and> CHR '':'' \<notin> set s \<and> strip_control_codes s = s \<and>
                      (\<forall>x. CHR '':'' \<notin> set x \<longrightarrow> emoji_replace RICH0 x = x) \<longrightarrow>
                      ts ! i = highlighter s)
                 | v \<Rightarrow> to_print [PStr ''[bold]hi'', PInt 3] ! i = v \<and>
                        collect_one RICH0 v = Inr (ts ! i)"
    by blast
  from each[rule_format, of 0] plain have t0: "ts ! 0 = highlighter ''[bold]hi''"
    by simp
  from each[rule_format, of 1] have t1: "Inr (ts ! 1) = collect_one RICH0 (PInt 3)"
    by simp
  from run given t0 t1 show ?thesis
    by (auto simp: CONSOLE0_def)
qed

section \<open>A string literal, a number and a keyword\<close>












subsection \<open>The rule for string literals\<close>






subsection \<open>The rules on a line of the family\<close>


lemma finditer_end:
  assumes "m r (pre, [], []) = []"
  shows "finditer r adv pre [] = []"
  by (subst finditer.simps) (simp add: first_match_def assms)




























end

